theory Spec2Isabelle
  imports Main "HOL-Library.AList" "HOL-Library.Char_ord" "HOL-Library.List_Lexorder"
    "HOL-Library.Sublist"
begin

section \<open>JavaScript containers\<close>

text \<open>
  Times are milliseconds since the epoch (\<^verbatim>\<open>Date.now()\<close>); an ISO timestamp written by
  \<^verbatim>\<open>new Date().toISOString()\<close> and read back by \<^verbatim>\<open>new Date(s)\<close> is kept as the
  same number of milliseconds.

  A JavaScript \<^verbatim>\<open>Map\<close> keeps its entries in insertion order and holds each key once.
  It is modelled as an association list: \<^verbatim>\<open>get\<close> is \<^const>\<open>map_of\<close>, \<^verbatim>\<open>set\<close> is
  \<^const>\<open>AList.update\<close> (overwrite in place, or append a new entry), \<^verbatim>\<open>delete\<close> is
  \<^const>\<open>AList.delete\<close>, and mutating the object stored under a key is
  \<^const>\<open>AList.map_entry\<close>. A \<^verbatim>\<open>Set\<close> is the list of its members in insertion order.
\<close>

type_synonym time = int

type_synonym ('k, 'v) js_map = "('k \<times> 'v) list"

type_synonym 'a js_set = "'a list"

abbreviation Map_get :: "('k, 'v) js_map \<Rightarrow> 'k \<Rightarrow> 'v option" where
  "Map_get m k \<equiv> map_of m k"

abbreviation Map_has :: "('k, 'v) js_map \<Rightarrow> 'k \<Rightarrow> bool" where
  "Map_has m k \<equiv> map_of m k \<noteq> None"

abbreviation Map_set :: "'k \<Rightarrow> 'v \<Rightarrow> ('k, 'v) js_map \<Rightarrow> ('k, 'v) js_map" where
  "Map_set k v m \<equiv> AList.update k v m"

abbreviation Map_delete :: "'k \<Rightarrow> ('k, 'v) js_map \<Rightarrow> ('k, 'v) js_map" where
  "Map_delete k m \<equiv> AList.delete k m"

abbreviation Map_keys :: "('k, 'v) js_map \<Rightarrow> 'k list" where
  "Map_keys m \<equiv> map fst m"

abbreviation Map_values :: "('k, 'v) js_map \<Rightarrow> 'v list" where
  "Map_values m \<equiv> map snd m"

definition Set_add :: "'a \<Rightarrow> 'a js_set \<Rightarrow> 'a js_set" where
  "Set_add x s = (if x \<in> set s then s else s @ [x])"

section \<open>services/cacheService.js\<close>

text \<open>
  A stored entry. The payload is a non-null value of type \<open>'v\<close>; \<^verbatim>\<open>get\<close> answers
  \<open>Some v\<close> for \<^verbatim>\<open>entry.value\<close> and \<open>None\<close> for the \<^verbatim>\<open>null\<close> of a miss.
\<close>

record 'v cache_entry =
  entry_value :: 'v
  expiresAt :: time
  entry_cachedAt :: time

record 'v CacheService =
  cache :: "(string, 'v cache_entry) js_map"
  ttl :: int

definition new_CacheService :: "'v CacheService" where
  "new_CacheService = \<lparr>cache = [], ttl = 5 * 60 * 1000\<rparr>"

text \<open>
  \<^verbatim>\<open>Object.keys(params).sort().map(key => `${key}:${params[key]}`).join("|")\<close>.
  The parameter object is the list of its own properties in the order \<^verbatim>\<open>Object.keys\<close>
  lists them, the values already converted to strings; \<^verbatim>\<open>sort()\<close> orders the names as
  strings.
\<close>

fun join :: "string \<Rightarrow> string list \<Rightarrow> string" where
  "join sep [] = []"
| "join sep [x] = x"
| "join sep (x # y # ys) = x @ sep @ join sep (y # ys)"

definition param_value :: "(string, string) js_map \<Rightarrow> string \<Rightarrow> string" where
  "param_value params key = (case map_of params key of None \<Rightarrow> ''undefined'' | Some v \<Rightarrow> v)"

definition generateKey :: "string \<Rightarrow> (string, string) js_map \<Rightarrow> string" where
  "generateKey key_prefix params =
     (let sortedParams =
            join ''|'' (map (\<lambda>key. key @ '':'' @ param_value params key)
                          (sort (Map_keys params)))
      in key_prefix @ '':'' @ sortedParams)"

text \<open>\<^verbatim>\<open>set(key, value, ttl)\<close> at time \<open>now\<close>; \<open>None\<close> for the ttl is the default.\<close>

definition cache_set ::
  "string \<Rightarrow> 'v \<Rightarrow> int option \<Rightarrow> time \<Rightarrow> 'v CacheService \<Rightarrow> 'v CacheService" where
  "cache_set key v ttl_arg now c =
     (let ttl' = (case ttl_arg of None \<Rightarrow> ttl c | Some t \<Rightarrow> t);
          expires = now + ttl'
      in c\<lparr>cache := Map_set key
             \<lparr>entry_value = v, expiresAt = expires, entry_cachedAt = now\<rparr> (cache c)\<rparr>)"

text \<open>\<^verbatim>\<open>get(key)\<close> at time \<open>now\<close>: the answer and the cache afterwards.\<close>

definition cache_get :: "string \<Rightarrow> time \<Rightarrow> 'v CacheService \<Rightarrow> 'v option \<times> 'v CacheService" where
  "cache_get key now c =
     (case Map_get (cache c) key of
        None \<Rightarrow> (None, c)
      | Some entry \<Rightarrow>
          if now > expiresAt entry
          then (None, c\<lparr>cache := Map_delete key (cache c)\<rparr>)
          else (Some (entry_value entry), c))"

definition cache_has :: "string \<Rightarrow> time \<Rightarrow> 'v CacheService \<Rightarrow> bool \<times> 'v CacheService" where
  "cache_has key now c = (case cache_get key now c of (v, c') \<Rightarrow> (v \<noteq> None, c'))"

definition cache_delete :: "string \<Rightarrow> 'v CacheService \<Rightarrow> bool \<times> 'v CacheService" where
  "cache_delete key c = (Map_has (cache c) key, c\<lparr>cache := Map_delete key (cache c)\<rparr>)"

definition cache_clear :: "'v CacheService \<Rightarrow> 'v CacheService" where
  "cache_clear c = c\<lparr>cache := []\<rparr>"

definition clearExpired :: "time \<Rightarrow> 'v CacheService \<Rightarrow> 'v CacheService" where
  "clearExpired now c =
     c\<lparr>cache := fold (\<lambda>(key, entry) m. if now > expiresAt entry then Map_delete key m else m)
                    (cache c) (cache c)\<rparr>"

text \<open>
  The operations on the cache, as the steps of a history, and when a step may stand
  between a \<^verbatim>\<open>set\<close> of a key and a later \<^verbatim>\<open>get\<close> of it at time \<open>now\<close>: it is no
  \<^verbatim>\<open>set\<close> or \<^verbatim>\<open>delete\<close> of that key and no \<^verbatim>\<open>clear\<close>, and a \<^verbatim>\<open>get\<close> or \<^verbatim>\<open>has\<close> of that
  key and a \<^verbatim>\<open>clearExpired\<close> happen no later than \<open>now\<close>.
\<close>

datatype 'v cache_op =
    Op_set string 'v "int option" time
  | Op_get string time
  | Op_has string time
  | Op_delete string
  | Op_clear
  | Op_clearExpired time

fun apply_op :: "'v cache_op \<Rightarrow> 'v CacheService \<Rightarrow> 'v CacheService" where
  "apply_op (Op_set k v t tm) c = cache_set k v t tm c"
| "apply_op (Op_get k tm) c = snd (cache_get k tm c)"
| "apply_op (Op_has k tm) c = snd (cache_has k tm c)"
| "apply_op (Op_delete k) c = snd (cache_delete k c)"
| "apply_op Op_clear c = cache_clear c"
| "apply_op (Op_clearExpired tm) c = clearExpired tm c"

fun admitted :: "string \<Rightarrow> time \<Rightarrow> 'v cache_op \<Rightarrow> bool" where
  "admitted key now (Op_set k v t tm) = (k \<noteq> key)"
| "admitted key now (Op_get k tm) = (k \<noteq> key \<or> tm \<le> now)"
| "admitted key now (Op_has k tm) = (k \<noteq> key \<or> tm \<le> now)"
| "admitted key now (Op_delete k) = (k \<noteq> key)"
| "admitted key now Op_clear = False"
| "admitted key now (Op_clearExpired tm) = (tm \<le> now)"

section \<open>models/Article.js\<close>

type_synonym user_id = nat

record source_info =
  source_name :: string
  source_url :: string

text \<open>An article as the provider returns it. A string is the list of its UTF-8 bytes.\<close>

record article =
  url :: string
  title :: string
  description :: string
  content :: string
  image_field :: string
  publishedAt :: string
  source :: source_info

text \<open>The stored metadata: the article's fields, the \<^verbatim>\<open>id\<close> and \<^verbatim>\<open>cachedAt\<close>.\<close>

record article_metadata = article +
  meta_id :: string
  cachedAt :: time

text \<open>
  A favourite is \<^verbatim>\<open>{...metadata, favoritedAt}\<close>, or \<^verbatim>\<open>{id, favoritedAt}\<close> when there is
  no metadata: \<open>spread_fields\<close> holds the properties spread into the object, \<open>own_id\<close>
  the \<^verbatim>\<open>id\<close> written beside them.
\<close>

record favorite =
  spread_fields :: "article_metadata option"
  own_id :: "string option"
  favoritedAt :: time

record Article_model =
  readArticles :: "(user_id, string js_set) js_map"
  favoriteArticles :: "(user_id, (string, favorite) js_map) js_map"
  articleMetadata :: "(string, article_metadata) js_map"

definition new_Article :: Article_model where
  "new_Article = \<lparr>readArticles = [], favoriteArticles = [], articleMetadata = []\<rparr>"

subsection \<open>Base64, as \<^verbatim>\<open>Buffer.from(url).toString("base64")\<close> writes it\<close>

definition base64_alphabet :: string where
  "base64_alphabet = ''ABCDEFGHIJKLMNOPQRSTUVWXYZabcdefghijklmnopqrstuvwxyz0123456789+/''"

definition base64_digit :: "nat \<Rightarrow> char" where
  "base64_digit n = base64_alphabet ! (n mod 64)"

fun base64 :: "string \<Rightarrow> string" where
  "base64 [] = []"
| "base64 [a] =
     (let n = of_char a * 65536 :: nat
      in [base64_digit (n div 262144), base64_digit (n div 4096), CHR ''='', CHR ''=''])"
| "base64 [a, b] =
     (let n = of_char a * 65536 + of_char b * 256 :: nat
      in [base64_digit (n div 262144), base64_digit (n div 4096), base64_digit (n div 64),
          CHR ''=''])"
| "base64 (a # b # c # rest) =
     (let n = of_char a * 65536 + of_char b * 256 + of_char c :: nat
      in [base64_digit (n div 262144), base64_digit (n div 4096), base64_digit (n div 64),
          base64_digit n] @ base64 rest)"

text \<open>\<^verbatim>\<open>Buffer.from(url).toString("base64").substring(0, 32)\<close>\<close>

definition generateArticleId :: "string \<Rightarrow> string" where
  "generateArticleId u = take 32 (base64 u)"

subsection \<open>Metadata\<close>

definition storeArticleMetadata :: "time \<Rightarrow> article \<Rightarrow> Article_model \<Rightarrow> string \<times> Article_model" where
  "storeArticleMetadata now a st =
     (let articleId = generateArticleId (url a)
      in (articleId,
          if \<not> Map_has (articleMetadata st) articleId
          then st\<lparr>articleMetadata :=
                    Map_set articleId
                      \<lparr>url = url a, title = title a, description = description a,
                       content = content a, image_field = image_field a,
                       publishedAt = publishedAt a, source = source a,
                       meta_id = articleId, cachedAt = now\<rparr>
                      (articleMetadata st)\<rparr>
          else st))"

definition getArticleMetadata :: "string \<Rightarrow> Article_model \<Rightarrow> article_metadata option" where
  "getArticleMetadata articleId st = Map_get (articleMetadata st) articleId"

subsection \<open>Read marks\<close>

text \<open>\<^verbatim>\<open>if (!m.has(userId)) m.set(userId, fresh)\<close>, for the read sets and the favourites.\<close>

definition init_user :: "user_id \<Rightarrow> 'a \<Rightarrow> (user_id, 'a) js_map \<Rightarrow> (user_id, 'a) js_map" where
  "init_user userId fresh m = (if \<not> Map_has m userId then Map_set userId fresh m else m)"

definition markAsReadById ::
  "time \<Rightarrow> user_id \<Rightarrow> string \<Rightarrow> Article_model \<Rightarrow> (string \<times> time) \<times> Article_model" where
  "markAsReadById now userId articleId st =
     (let ra = init_user userId [] (readArticles st);
          ra' = AList.map_entry userId (Set_add articleId) ra
      in ((articleId, now), st\<lparr>readArticles := ra'\<rparr>))"

definition markAsRead ::
  "time \<Rightarrow> user_id \<Rightarrow> article \<Rightarrow> Article_model \<Rightarrow> (string \<times> time) \<times> Article_model" where
  "markAsRead now userId a st =
     (case storeArticleMetadata now a st of
        (articleId, st1) \<Rightarrow>
          let ra = init_user userId [] (readArticles st1);
              ra' = AList.map_entry userId (Set_add articleId) ra
          in ((articleId, now), st1\<lparr>readArticles := ra'\<rparr>))"

definition isRead :: "user_id \<Rightarrow> string \<Rightarrow> Article_model \<Rightarrow> bool" where
  "isRead userId articleId st =
     (case Map_get (readArticles st) userId of
        None \<Rightarrow> False
      | Some s \<Rightarrow> articleId \<in> set s)"

definition getReadArticles :: "user_id \<Rightarrow> Article_model \<Rightarrow> article_metadata list" where
  "getReadArticles userId st =
     (case Map_get (readArticles st) userId of
        None \<Rightarrow> []
      | Some readIds \<Rightarrow>
          map the (filter (\<lambda>a. a \<noteq> None) (map (\<lambda>i. Map_get (articleMetadata st) i) readIds)))"

subsection \<open>Favourites\<close>

definition markAsFavorite ::
  "time \<Rightarrow> user_id \<Rightarrow> article \<Rightarrow> Article_model \<Rightarrow> (string \<times> time) \<times> Article_model" where
  "markAsFavorite now userId a st =
     (case storeArticleMetadata now a st of
        (articleId, st1) \<Rightarrow>
          let fa = init_user userId [] (favoriteArticles st1);
              entry = \<lparr>spread_fields = Map_get (articleMetadata st1) articleId,
                       own_id = None, favoritedAt = now\<rparr>;
              fa' = AList.map_entry userId (Map_set articleId entry) fa
          in ((articleId, now), st1\<lparr>favoriteArticles := fa'\<rparr>))"

definition markAsFavoriteById ::
  "time \<Rightarrow> user_id \<Rightarrow> string \<Rightarrow> Article_model \<Rightarrow> (string \<times> time) \<times> Article_model" where
  "markAsFavoriteById now userId articleId st =
     (let metadata = Map_get (articleMetadata st) articleId;
          fa = init_user userId [] (favoriteArticles st);
          entry = (case metadata of
                     Some m \<Rightarrow> \<lparr>spread_fields = Some m, own_id = None, favoritedAt = now\<rparr>
                   | None \<Rightarrow> \<lparr>spread_fields = None, own_id = Some articleId, favoritedAt = now\<rparr>);
          fa' = AList.map_entry userId (Map_set articleId entry) fa
      in ((articleId, now), st\<lparr>favoriteArticles := fa'\<rparr>))"

definition removeFavorite :: "user_id \<Rightarrow> string \<Rightarrow> Article_model \<Rightarrow> bool \<times> Article_model" where
  "removeFavorite userId articleId st =
     (case Map_get (favoriteArticles st) userId of
        None \<Rightarrow> (False, st)
      | Some favs \<Rightarrow>
          (Map_has favs articleId,
           st\<lparr>favoriteArticles :=
                AList.map_entry userId (Map_delete articleId) (favoriteArticles st)\<rparr>))"

definition isFavorite :: "user_id \<Rightarrow> string \<Rightarrow> Article_model \<Rightarrow> bool" where
  "isFavorite userId articleId st =
     (case Map_get (favoriteArticles st) userId of
        None \<Rightarrow> False
      | Some favs \<Rightarrow> Map_has favs articleId)"

definition getFavoriteArticles :: "user_id \<Rightarrow> Article_model \<Rightarrow> favorite list" where
  "getFavoriteArticles userId st =
     (case Map_get (favoriteArticles st) userId of
        None \<Rightarrow> []
      | Some favs \<Rightarrow> Map_values favs)"

subsection \<open>Statistics and the metadata sweep\<close>

record user_stats =
  totalRead :: nat
  totalFavorites :: nat
  totalArticlesTracked :: nat

definition getUserStats :: "user_id \<Rightarrow> Article_model \<Rightarrow> user_stats" where
  "getUserStats userId st =
     (let readCount = (case Map_get (readArticles st) userId of
                         None \<Rightarrow> 0 | Some s \<Rightarrow> length s);
          favoriteCount = (case Map_get (favoriteArticles st) userId of
                             None \<Rightarrow> 0 | Some favs \<Rightarrow> length favs)
      in \<lparr>totalRead = readCount, totalFavorites = favoriteCount,
          totalArticlesTracked = length (articleMetadata st)\<rparr>)"

text \<open>
  \<^verbatim>\<open>clearOldMetadata(maxAge)\<close> at time \<open>now\<close>; \<open>None\<close> is the default of seven days.
  \<^verbatim>\<open>indexOf\<close> with \<^verbatim>\<open>splice(index, 1)\<close> takes the first occurrence out of the list, which
  is \<^const>\<open>remove1\<close>.
\<close>

definition old_ids :: "time \<Rightarrow> int \<Rightarrow> (string, article_metadata) js_map \<Rightarrow> string list" where
  "old_ids now maxAge md = map fst (filter (\<lambda>(i, a). now - cachedAt a > maxAge) md)"

definition keep_favorites ::
  "(user_id, (string, favorite) js_map) js_map \<Rightarrow> string list \<Rightarrow> string list" where
  "keep_favorites fa toDelete =
     fold (\<lambda>favMap td. fold remove1 (Map_keys favMap) td) (Map_values fa) toDelete"

definition clearOldMetadata :: "time \<Rightarrow> int option \<Rightarrow> Article_model \<Rightarrow> nat \<times> Article_model" where
  "clearOldMetadata now maxAge_arg st =
     (let maxAge = (case maxAge_arg of None \<Rightarrow> 7 * 24 * 60 * 60 * 1000 | Some m \<Rightarrow> m);
          toDelete = keep_favorites (favoriteArticles st) (old_ids now maxAge (articleMetadata st))
      in (length toDelete,
          st\<lparr>articleMetadata := fold Map_delete toDelete (articleMetadata st)\<rparr>))"

section \<open>services/newsService.js\<close>

text \<open>
  What \<^verbatim>\<open>axios.get\<close> throws: a response with an error status (and the message found in
  its body, if any), a request that got no response, or anything else with its message.
\<close>

datatype fetch_error =
    Error_response nat "string option"
  | Error_request
  | Error_other string

record news_error =
  message :: string
  status :: nat
  isApiError :: bool
  isNetworkError :: bool

definition handleError :: "fetch_error \<Rightarrow> news_error" where
  "handleError e =
     (case e of
        Error_response st body_message \<Rightarrow>
          (let m = (case body_message of None \<Rightarrow> ''News API error'' | Some t \<Rightarrow> t);
               m' = (if st = 400 then ''Invalid request to news API''
                     else if st = 401 then ''Invalid API key for news service''
                     else if st = 403 then ''Access forbidden to news API''
                     else if st = 429 then ''Rate limit exceeded for news API''
                     else if st = 500 then ''News API server error''
                     else m)
           in \<lparr>message = m', status = st, isApiError = True, isNetworkError = False\<rparr>)
      | Error_request \<Rightarrow>
          \<lparr>message = ''Unable to reach news API. Please try again later.'', status = 503,
           isApiError = False, isNetworkError = True\<rparr>
      | Error_other m \<Rightarrow>
          \<lparr>message = (if m = [] then ''Failed to fetch news'' else m), status = 500,
           isApiError = False, isNetworkError = False\<rparr>)"

text \<open>
  \<^verbatim>\<open>handleError\<close> on an error that is already one of its own results (it has neither
  \<^verbatim>\<open>response\<close> nor \<^verbatim>\<open>request\<close>): the last branch.
\<close>

definition handleError_again :: "news_error \<Rightarrow> news_error" where
  "handleError_again e =
     \<lparr>message = (if message e = [] then ''Failed to fetch news'' else message e), status = 500,
      isApiError = False, isNetworkError = False\<rparr>"

text \<open>
  The body of a provider response (\<^verbatim>\<open>response.data\<close>) and the result object of a search;
  \<open>None\<close> is a property that is \<^verbatim>\<open>undefined\<close>.
\<close>

record provider_data =
  data_totalArticles :: "nat option"
  data_articles :: "article list option"

record search_result =
  success :: bool
  totalArticles :: "nat option"
  articles :: "article list option"
  fromCache :: bool

type_synonym provider = "string \<Rightarrow> fetch_error + provider_data"

record NewsService =
  cacheTTL :: int

definition new_NewsService :: NewsService where
  "new_NewsService = \<lparr>cacheTTL = 5 * 60 * 1000\<rparr>"

definition search_key :: "string \<Rightarrow> string" where
  "search_key query = generateKey ''search'' [(''query'', query)]"

text \<open>
  \<^verbatim>\<open>searchNews\<close> up to its first network call: the cache lookup at time \<open>now\<close>, and the
  cached result marked \<^verbatim>\<open>fromCache\<close> on a hit.
\<close>

definition searchNews_lookup ::
  "time \<Rightarrow> string \<Rightarrow> search_result CacheService \<Rightarrow>
   search_result option \<times> search_result CacheService" where
  "searchNews_lookup now query c =
     (case cache_get (search_key query) now c of
        (None, c') \<Rightarrow> (None, c')
      | (Some cachedData, c') \<Rightarrow> (Some (cachedData\<lparr>fromCache := True\<rparr>), c'))"

text \<open>
  \<^verbatim>\<open>searchNews\<close> after a miss: the provider's answer arrives at time \<open>later\<close>; a failure is
  rethrown through \<^verbatim>\<open>handleError\<close>, a result is stored in the cache and returned.
\<close>

definition searchNews_fetch ::
  "provider \<Rightarrow> NewsService \<Rightarrow> time \<Rightarrow> string \<Rightarrow> search_result CacheService \<Rightarrow>
   (news_error + search_result) \<times> search_result CacheService" where
  "searchNews_fetch prov svc later query c =
     (case prov query of
        Inl e \<Rightarrow> (Inl (handleError e), c)
      | Inr d \<Rightarrow>
          (let result = \<lparr>success = True, totalArticles = data_totalArticles d,
                         articles = data_articles d, fromCache = False\<rparr>
           in (Inr result, cache_set (search_key query) result (Some (cacheTTL svc)) later c)))"

definition searchNews ::
  "provider \<Rightarrow> NewsService \<Rightarrow> time \<Rightarrow> time \<Rightarrow> string \<Rightarrow> search_result CacheService \<Rightarrow>
   (news_error + search_result) \<times> search_result CacheService" where
  "searchNews prov svc now later query c =
     (case searchNews_lookup now query c of
        (Some r, c') \<Rightarrow> (Inr r, c')
      | (None, c') \<Rightarrow> searchNews_fetch prov svc later query c')"

text \<open>
  \<^verbatim>\<open>preferences.map(p => this.searchNews(p).catch(...))\<close>: every search runs to its first
  network call when it is created, so the cache lookups happen first, in preference
  order; the provider's answers come afterwards. A pending search is the preference with
  the cached result, if there was one.
\<close>

fun start_searches ::
  "time \<Rightarrow> string list \<Rightarrow> search_result CacheService \<Rightarrow>
   (string \<times> search_result option) list \<times> search_result CacheService" where
  "start_searches now [] c = ([], c)"
| "start_searches now (p # ps) c =
     (case searchNews_lookup now p c of
        (r, c') \<Rightarrow> (case start_searches now ps c' of (rs, c'') \<Rightarrow> ((p, r) # rs, c'')))"

text \<open>The \<^verbatim>\<open>.catch\<close> handler of one search: a failure becomes an empty result.\<close>

definition catch_search :: "news_error + search_result \<Rightarrow> news_error + search_result" where
  "catch_search r =
     (case r of
        Inl err \<Rightarrow> Inr \<lparr>success = True, totalArticles = None, articles = Some [], fromCache = False\<rparr>
      | Inr v \<Rightarrow> Inr v)"

fun finish_searches ::
  "provider \<Rightarrow> NewsService \<Rightarrow> time \<Rightarrow> (string \<times> search_result option) list \<Rightarrow>
   search_result CacheService \<Rightarrow> (news_error + search_result) list \<times> search_result CacheService" where
  "finish_searches prov svc later [] c = ([], c)"
| "finish_searches prov svc later ((p, Some r) # ps) c =
     (case finish_searches prov svc later ps c of
        (rs, c') \<Rightarrow> (catch_search (Inr r) # rs, c'))"
| "finish_searches prov svc later ((p, None) # ps) c =
     (case searchNews_fetch prov svc later p c of
        (r, c') \<Rightarrow> (case finish_searches prov svc later ps c' of
                      (rs, c'') \<Rightarrow> (catch_search r # rs, c'')))"

text \<open>\<^verbatim>\<open>Promise.all\<close>: the list of the values, or the first rejection.\<close>

fun promise_all :: "('e + 'a) list \<Rightarrow> 'e + 'a list" where
  "promise_all [] = Inr []"
| "promise_all (Inl e # rs) = Inl e"
| "promise_all (Inr v # rs) = (case promise_all rs of Inl e \<Rightarrow> Inl e | Inr vs \<Rightarrow> Inr (v # vs))"

text \<open>
  The two nested \<^verbatim>\<open>forEach\<close> loops over the results and their articles, with the state
  \<^verbatim>\<open>(allArticles, seenUrls)\<close>; a result without \<^verbatim>\<open>articles\<close> is skipped.
\<close>

definition add_article :: "article \<Rightarrow> article list \<times> string list \<Rightarrow> article list \<times> string list" where
  "add_article a acc =
     (case acc of
        (allArticles, seenUrls) \<Rightarrow>
          if url a \<notin> set seenUrls then (allArticles @ [a], Set_add (url a) seenUrls)
          else (allArticles, seenUrls))"

definition add_result ::
  "search_result \<Rightarrow> article list \<times> string list \<Rightarrow> article list \<times> string list" where
  "add_result r acc = (case articles r of None \<Rightarrow> acc | Some as \<Rightarrow> fold add_article as acc)"

definition combine_results :: "search_result list \<Rightarrow> search_result" where
  "combine_results results =
     (let allArticles = fst (fold add_result results ([], []));
          limitedArticles = take 10 allArticles
      in \<lparr>success = True, totalArticles = Some (length limitedArticles),
          articles = Some limitedArticles, fromCache = False\<rparr>)"

definition getPersonalizedNews ::
  "provider \<Rightarrow> NewsService \<Rightarrow> time \<Rightarrow> time \<Rightarrow> string list \<Rightarrow> search_result CacheService \<Rightarrow>
   (news_error + search_result) \<times> search_result CacheService" where
  "getPersonalizedNews prov svc now later preferences c =
     (if preferences = []
      then (Inr \<lparr>success = True, totalArticles = Some 0, articles = Some [], fromCache = False\<rparr>, c)
      else
        (case start_searches now preferences c of
           (pending, c1) \<Rightarrow>
             (case finish_searches prov svc later pending c1 of
                (newsPromises, c2) \<Rightarrow>
                  (case promise_all newsPromises of
                     Inl e \<Rightarrow> (Inl (handleError_again e), c2)
                   | Inr results \<Rightarrow> (Inr (combine_results results), c2)))))"

section \<open>services/backgroundJobService.js\<close>

text \<open>
  The timers of the runtime: \<^verbatim>\<open>setInterval\<close> registers a job with its period under a
  fresh handle, \<^verbatim>\<open>clearInterval\<close> takes the handle out.
\<close>

datatype job = UpdatePopularNewsCache | CleanupCache | CleanupOldArticles

record timers =
  next_handle :: nat
  active :: "(nat \<times> job \<times> int) list"

definition setInterval :: "job \<Rightarrow> int \<Rightarrow> timers \<Rightarrow> nat \<times> timers" where
  "setInterval j period rt =
     (next_handle rt,
      rt\<lparr>next_handle := Suc (next_handle rt), active := active rt @ [(next_handle rt, j, period)]\<rparr>)"

definition clearInterval :: "nat \<Rightarrow> timers \<Rightarrow> timers" where
  "clearInterval h rt = rt\<lparr>active := filter (\<lambda>t. fst t \<noteq> h) (active rt)\<rparr>"

record intervals =
  cacheUpdate :: "nat option"
  cacheCleanup :: "nat option"
  articleCleanup :: "nat option"

record BackgroundJobService =
  intervals :: intervals
  isRunning :: bool

record job_config =
  cacheUpdateInterval :: "int option"
  cacheCleanupInterval :: "int option"
  articleCleanupInterval :: "int option"

definition new_BackgroundJobService :: BackgroundJobService where
  "new_BackgroundJobService =
     \<lparr>intervals = \<lparr>cacheUpdate = None, cacheCleanup = None, articleCleanup = None\<rparr>,
      isRunning = False\<rparr>"

definition new_timers :: timers where
  "new_timers = \<lparr>next_handle = 0, active = []\<rparr>"

definition start :: "job_config \<Rightarrow> BackgroundJobService \<times> timers \<Rightarrow> BackgroundJobService \<times> timers" where
  "start config s =
     (case s of
        (svc, rt) \<Rightarrow>
          if isRunning svc then (svc, rt)
          else
            (let p1 = (case cacheUpdateInterval config of None \<Rightarrow> 5 * 60 * 1000 | Some p \<Rightarrow> p);
                 p2 = (case cacheCleanupInterval config of None \<Rightarrow> 10 * 60 * 1000 | Some p \<Rightarrow> p);
                 p3 = (case articleCleanupInterval config of None \<Rightarrow> 60 * 60 * 1000 | Some p \<Rightarrow> p)
             in case setInterval UpdatePopularNewsCache p1 rt of
                  (h1, rt1) \<Rightarrow>
                    (case setInterval CleanupCache p2 rt1 of
                       (h2, rt2) \<Rightarrow>
                         (case setInterval CleanupOldArticles p3 rt2 of
                            (h3, rt3) \<Rightarrow>
                              (\<lparr>intervals = \<lparr>cacheUpdate = Some h1, cacheCleanup = Some h2,
                                              articleCleanup = Some h3\<rparr>,
                                isRunning = True\<rparr>, rt3)))))"

text \<open>One round of the loop of \<^verbatim>\<open>stop\<close>: a handle that is set is cleared and forgotten.\<close>

definition clear_slot :: "nat option \<Rightarrow> timers \<Rightarrow> timers" where
  "clear_slot slot rt = (case slot of None \<Rightarrow> rt | Some h \<Rightarrow> clearInterval h rt)"

definition stop :: "BackgroundJobService \<times> timers \<Rightarrow> BackgroundJobService \<times> timers" where
  "stop s =
     (case s of
        (svc, rt) \<Rightarrow>
          if \<not> isRunning svc then (svc, rt)
          else
            (let rt1 = clear_slot (cacheUpdate (intervals svc)) rt;
                 rt2 = clear_slot (cacheCleanup (intervals svc)) rt1;
                 rt3 = clear_slot (articleCleanup (intervals svc)) rt2
             in (\<lparr>intervals = \<lparr>cacheUpdate = None, cacheCleanup = None, articleCleanup = None\<rparr>,
                  isRunning = False\<rparr>, rt3)))"

text \<open>The states the service can be in: the initial one, and what calls lead to.\<close>

inductive reachable :: "BackgroundJobService \<times> timers \<Rightarrow> bool" where
  init: "reachable (new_BackgroundJobService, new_timers)"
| start: "reachable s \<Longrightarrow> reachable (start config s)"
| stop: "reachable s \<Longrightarrow> reachable (stop s)"

text \<open>\<^verbatim>\<open>getStatus().jobs\<close>: which timers the service holds.\<close>

definition installed :: "BackgroundJobService \<Rightarrow> bool \<times> bool \<times> bool" where
  "installed svc =
     (cacheUpdate (intervals svc) \<noteq> None, cacheCleanup (intervals svc) \<noteq> None,
      articleCleanup (intervals svc) \<noteq> None)"

section \<open>controllers/articleController.js\<close>

record response =
  http_status :: nat
  body_success :: bool
  body_message :: string

definition removeFavorite_controller ::
  "user_id \<Rightarrow> string \<Rightarrow> Article_model \<Rightarrow> response \<times> Article_model" where
  "removeFavorite_controller userId articleId st =
     (case removeFavorite userId articleId st of
        (removed, st') \<Rightarrow>
          if \<not> removed
          then (\<lparr>http_status = 404, body_success = False,
                 body_message = ''Article not found in favorites''\<rparr>, st')
          else (\<lparr>http_status = 200, body_success = True,
                 body_message = ''Article removed from favorites''\<rparr>, st'))"

section \<open>Example values\<close>

definition example_article :: "string \<Rightarrow> article" where
  "example_article u =
     \<lparr>url = u, title = ''t'', description = ''d'', content = ''c'', image_field = ''i'',
      publishedAt = ''2024-01-01T00:00:00Z'',
      source = \<lparr>source_name = ''s'', source_url = ''https://s.example''\<rparr>\<rparr>"

definition example_metadata :: "string \<Rightarrow> time \<Rightarrow> article_metadata" where
  "example_metadata i t =
     \<lparr>url = ''https://example.com/'' @ i, title = ''t'', description = ''d'', content = ''c'',
      image_field = ''i'', publishedAt = ''2024-01-01T00:00:00Z'',
      source = \<lparr>source_name = ''s'', source_url = ''https://s.example''\<rparr>,
      meta_id = i, cachedAt = t\<rparr>"

definition example_favorite :: "string \<Rightarrow> time \<Rightarrow> favorite" where
  "example_favorite i t = \<lparr>spread_fields = None, own_id = Some i, favoritedAt = t\<rparr>"

text \<open>
  Three metadata entries: \<open>x\<close> and \<open>f\<close> stored at time 0, \<open>n\<close> at time 1000; user 1 has
  read \<open>x\<close>, user 2 has \<open>f\<close> among the favourites.
\<close>

definition example_store :: Article_model where
  "example_store =
     \<lparr>readArticles = [(1, [''x''])],
      favoriteArticles = [(2, [(''f'', example_favorite ''f'' 10)])],
      articleMetadata = [(''x'', example_metadata ''x'' 0), (''f'', example_metadata ''f'' 0),
                         (''n'', example_metadata ''n'' 1000)]\<rparr>"

section \<open>Notions used in the statements\<close>

subsection \<open>The article store\<close>

text \<open>
  The ids that occur as a key of some user's favourites map, as a set and as a test, and
  the entries the sweep is to delete: older than \<open>maxAge\<close> and in no favourites map.
\<close>

definition favorite_ids :: "(user_id, (string, favorite) js_map) js_map \<Rightarrow> string set" where
  "favorite_ids fa = (\<Union>favMap \<in> set (Map_values fa). set (Map_keys favMap))"

definition in_some_favorites :: "(user_id, (string, favorite) js_map) js_map \<Rightarrow> string \<Rightarrow> bool" where
  "in_some_favorites fa i = (\<exists>favMap \<in> set (Map_values fa). i \<in> set (Map_keys favMap))"

definition swept :: "time \<Rightarrow> int \<Rightarrow> Article_model \<Rightarrow> string \<times> article_metadata \<Rightarrow> bool" where
  "swept now maxAge st p =
     (now - cachedAt (snd p) > maxAge \<and> \<not> in_some_favorites (favoriteArticles st) (fst p))"

text \<open>The metadata \<^verbatim>\<open>storeArticleMetadata\<close> writes for an article under an id at a time.\<close>

definition metadata_of :: "string \<Rightarrow> time \<Rightarrow> article \<Rightarrow> article_metadata" where
  "metadata_of i now a =
     \<lparr>url = url a, title = title a, description = description a, content = content a,
      image_field = image_field a, publishedAt = publishedAt a, source = source a,
      meta_id = i, cachedAt = now\<rparr>"

text \<open>
  The stores the program can build: the empty one, and what the operations of the model
  make of a store.
\<close>

inductive store_reachable :: "Article_model \<Rightarrow> bool" where
  new: "store_reachable new_Article"
| store: "store_reachable st \<Longrightarrow> store_reachable (snd (storeArticleMetadata now a st))"
| read: "store_reachable st \<Longrightarrow> store_reachable (snd (markAsRead now u a st))"
| read_id: "store_reachable st \<Longrightarrow> store_reachable (snd (markAsReadById now u i st))"
| favorite: "store_reachable st \<Longrightarrow> store_reachable (snd (markAsFavorite now u a st))"
| favorite_id: "store_reachable st \<Longrightarrow> store_reachable (snd (markAsFavoriteById now u i st))"
| remove: "store_reachable st \<Longrightarrow> store_reachable (snd (removeFavorite u i st))"
| sweep: "store_reachable st \<Longrightarrow> store_reachable (snd (clearOldMetadata now maxAge st))"

subsection \<open>The scheduler\<close>

text \<open>
  The two states of the scheduler. Running: the three handles are set and the runtime's
  timers are exactly the three jobs under those handles. Stopped: no handle is set and no
  timer is left.
\<close>

definition all_jobs :: "job list" where
  "all_jobs = [UpdatePopularNewsCache, CleanupCache, CleanupOldArticles]"

definition scheduler_inv :: "BackgroundJobService \<times> timers \<Rightarrow> bool" where
  "scheduler_inv s =
     (case s of
        (svc, rt) \<Rightarrow>
          if isRunning svc
          then installed svc = (True, True, True)
             \<and> map (\<lambda>t. fst (snd t)) (active rt) = all_jobs
             \<and> map (\<lambda>t. Some (fst t)) (active rt) =
                 [cacheUpdate (intervals svc), cacheCleanup (intervals svc),
                  articleCleanup (intervals svc)]
          else installed svc = (False, False, False) \<and> active rt = [])"

definition example_config :: job_config where
  "example_config =
     \<lparr>cacheUpdateInterval = None, cacheCleanupInterval = Some 1000, articleCleanupInterval = None\<rparr>"

subsection \<open>The personalised feed\<close>

text \<open>
  Deduplication by URL as the specification words it: of the articles with one URL the
  first stays, the later ones go.
\<close>

fun first_by_url :: "article list \<Rightarrow> article list" where
  "first_by_url [] = []"
| "first_by_url (a # as) = a # first_by_url (filter (\<lambda>b. url b \<noteq> url a) as)"

text \<open>
  What one preference contributes: the cached result when the lookup at time \<open>now\<close> hits,
  else the provider's answer, an empty result when the provider fails. A fetch fails for a
  preference when the lookup misses and the provider answers with an error.
\<close>

definition empty_result :: search_result where
  "empty_result = \<lparr>success = True, totalArticles = None, articles = Some [], fromCache = False\<rparr>"

definition fetched_result :: "provider_data \<Rightarrow> search_result" where
  "fetched_result d =
     \<lparr>success = True, totalArticles = data_totalArticles d, articles = data_articles d,
      fromCache = False\<rparr>"

definition pref_result :: "provider \<Rightarrow> time \<Rightarrow> search_result CacheService \<Rightarrow> string \<Rightarrow> search_result" where
  "pref_result prov now c p =
     (case fst (searchNews_lookup now p c) of
        Some r \<Rightarrow> r
      | None \<Rightarrow> (case prov p of Inl e \<Rightarrow> empty_result | Inr d \<Rightarrow> fetched_result d))"

definition result_articles :: "search_result \<Rightarrow> article list" where
  "result_articles r = (case articles r of None \<Rightarrow> [] | Some as \<Rightarrow> as)"

definition pref_articles :: "provider \<Rightarrow> time \<Rightarrow> search_result CacheService \<Rightarrow> string \<Rightarrow> article list" where
  "pref_articles prov now c p = result_articles (pref_result prov now c p)"

definition fetch_fails :: "provider \<Rightarrow> time \<Rightarrow> search_result CacheService \<Rightarrow> string \<Rightarrow> bool" where
  "fetch_fails prov now c p = (fst (searchNews_lookup now p c) = None \<and> isl (prov p))"

definition settle :: "provider \<Rightarrow> string \<times> search_result option \<Rightarrow> search_result" where
  "settle prov pr =
     (case snd pr of
        Some r \<Rightarrow> r
      | None \<Rightarrow> (case prov (fst pr) of Inl e \<Rightarrow> empty_result | Inr d \<Rightarrow> fetched_result d))"

definition example_provider :: provider where
  "example_provider q =
     (if q = ''a''
      then Inr \<lparr>data_totalArticles = Some 2,
                data_articles = Some [example_article ''https://example.com/1'',
                                      example_article ''https://example.com/2'']\<rparr>
      else if q = ''b'' then Inl (Error_response 429 None)
      else Inr \<lparr>data_totalArticles = Some 0, data_articles = Some []\<rparr>)"

section \<open>The metadata sweep\<close>

lemma filter_neq_absent: "k \<notin> set td \<Longrightarrow> filter (\<lambda>i. i \<noteq> k) td = td"
  by (induction td) auto

lemma remove1_distinct_filter:
  "distinct td \<Longrightarrow> remove1 k td = filter (\<lambda>i. i \<noteq> k) td"
  by (induction td) (auto simp: filter_neq_absent)

lemma remove1_fold_distinct:
  "distinct td \<Longrightarrow> fold remove1 ks td = filter (\<lambda>i. i \<notin> set ks) td"
proof (induction ks arbitrary: td)
  case Nil
  then show ?case by simp
next
  case (Cons k ks)
  have eq: "remove1 k td = filter (\<lambda>i. i \<noteq> k) td"
    using Cons.prems by (rule remove1_distinct_filter)
  have "distinct (filter (\<lambda>i. i \<noteq> k) td)" using Cons.prems by simp
  from Cons.IH [OF this] show ?case
    by (simp add: eq conj_commute)
qed

lemma keep_favorites_filter_aux:
  "distinct td \<Longrightarrow>
   fold (\<lambda>favMap td. fold remove1 (Map_keys favMap) td) fms td =
     filter (\<lambda>i. i \<notin> (\<Union>favMap \<in> set fms. set (Map_keys favMap))) td"
proof (induction fms arbitrary: td)
  case Nil
  then show ?case by simp
next
  case (Cons fm fms)
  have step: "fold remove1 (Map_keys fm) td = filter (\<lambda>i. i \<notin> set (Map_keys fm)) td"
    using Cons.prems by (rule remove1_fold_distinct)
  have "distinct (filter (\<lambda>i. i \<notin> set (Map_keys fm)) td)"
    using Cons.prems by simp
  from Cons.IH [OF this] show ?case
    by (simp add: step conj_commute)
qed

lemma keep_favorites_filter:
  "distinct td \<Longrightarrow> keep_favorites fa td = filter (\<lambda>i. i \<notin> favorite_ids fa) td"
  unfolding keep_favorites_def favorite_ids_def by (rule keep_favorites_filter_aux)

lemma Map_delete_filter: "Map_delete k m = filter (\<lambda>p. fst p \<noteq> k) m"
  by (induction m) auto

lemma fold_Map_delete:
  "fold Map_delete ks m = filter (\<lambda>p. fst p \<notin> set ks) m"
proof (induction ks arbitrary: m)
  case Nil
  then show ?case by simp
next
  case (Cons k ks)
  have "fold Map_delete (k # ks) m = fold Map_delete ks (Map_delete k m)"
    by simp
  also have "\<dots> = filter (\<lambda>p. fst p \<notin> set ks) (Map_delete k m)"
    by (rule Cons.IH)
  also have "\<dots> = filter (\<lambda>p. fst p \<notin> set (k # ks)) m"
    by (simp add: Map_delete_filter conj_commute)
  finally show ?case .
qed


lemma map_of_filter_all:
  "(\<And>v. P (k, v)) \<Longrightarrow> map_of (filter P m) k = map_of m k"
  by (induction m) auto

lemma in_some_favorites_ids: "in_some_favorites fa i \<longleftrightarrow> i \<in> favorite_ids fa"
  by (auto simp: in_some_favorites_def favorite_ids_def)

lemma old_ids_distinct: "distinct (Map_keys md) \<Longrightarrow> distinct (old_ids now maxAge md)"
  unfolding old_ids_def by (rule distinct_map_filter)

lemma mem_old_ids:
  assumes "distinct (Map_keys md)" "p \<in> set md"
  shows "fst p \<in> set (old_ids now maxAge md) \<longleftrightarrow> now - cachedAt (snd p) > maxAge"
proof
  assume "fst p \<in> set (old_ids now maxAge md)"
  then obtain q where q: "q \<in> set md" "now - cachedAt (snd q) > maxAge" "fst q = fst p"
    by (auto simp: old_ids_def)
  then have "q = p"
    using assms by (metis eq_key_imp_eq_value prod.collapse)
  with q show "now - cachedAt (snd p) > maxAge" by simp
next
  assume "now - cachedAt (snd p) > maxAge"
  then show "fst p \<in> set (old_ids now maxAge md)"
    using assms(2) by (force simp: old_ids_def)
qed

lemma toDelete_mem:
  assumes "distinct (Map_keys (articleMetadata st))" "p \<in> set (articleMetadata st)"
  shows "fst p \<in> set (keep_favorites (favoriteArticles st) (old_ids now maxAge (articleMetadata st)))
         \<longleftrightarrow> swept now maxAge st p"
  using assms
  by (simp add: keep_favorites_filter old_ids_distinct mem_old_ids swept_def in_some_favorites_ids)

lemma toDelete_length:
  assumes "distinct (Map_keys (articleMetadata st))"
  shows "length (keep_favorites (favoriteArticles st) (old_ids now maxAge (articleMetadata st)))
         = length (filter (swept now maxAge st) (articleMetadata st))"
proof -
  have "keep_favorites (favoriteArticles st) (old_ids now maxAge (articleMetadata st))
        = map fst (filter (swept now maxAge st) (articleMetadata st))"
  proof -
    have sw: "swept now maxAge st =
                (\<lambda>x. maxAge < now - cachedAt (snd x) \<and> fst x \<notin> favorite_ids (favoriteArticles st))"
      by (auto simp: fun_eq_iff swept_def in_some_favorites_ids)
    show ?thesis
      using assms
      by (simp add: keep_favorites_filter old_ids_distinct)
         (simp add: old_ids_def filter_map o_def sw split_def)
  qed
  then show ?thesis by simp
qed

text \<open>The keys of the metadata map are distinct in every store the program can build.\<close>

lemma storeArticleMetadata_distinct:
  "distinct (Map_keys (articleMetadata st)) \<Longrightarrow>
   distinct (Map_keys (articleMetadata (snd (storeArticleMetadata now a st))))"
  by (simp add: storeArticleMetadata_def Let_def distinct_update)

lemma store_reachable_distinct:
  "store_reachable st \<Longrightarrow> distinct (Map_keys (articleMetadata st))"
proof (induction rule: store_reachable.induct)
  case new
  then show ?case by (simp add: new_Article_def)
next
  case (store st now a)
  from store.IH show ?case by (rule storeArticleMetadata_distinct)
next
  case (read st now u a)
  from read.IH have "distinct (Map_keys (articleMetadata (snd (storeArticleMetadata now a st))))"
    by (rule storeArticleMetadata_distinct)
  then show ?case
    by (auto simp: markAsRead_def Let_def split: prod.splits)
next
  case (read_id st now u i)
  then show ?case by (simp add: markAsReadById_def Let_def)
next
  case (favorite st now u a)
  from favorite.IH have "distinct (Map_keys (articleMetadata (snd (storeArticleMetadata now a st))))"
    by (rule storeArticleMetadata_distinct)
  then show ?case
    by (auto simp: markAsFavorite_def Let_def split: prod.splits)
next
  case (favorite_id st now u i)
  then show ?case by (simp add: markAsFavoriteById_def Let_def)
next
  case (remove st u i)
  then show ?case by (simp add: removeFavorite_def split: option.splits)
next
  case (sweep st now maxAge)
  then show ?case
    by (simp add: clearOldMetadata_def Let_def fold_Map_delete distinct_map_filter)
qed

text \<open>
  Claim C1. For every \<open>maxAge\<close> (given, or the default of seven days),
  \<^verbatim>\<open>clearOldMetadata\<close> deletes exactly the metadata entries whose age from \<open>cachedAt\<close>
  exceeds \<open>maxAge\<close> and whose id is in no user's favourites map: the metadata afterwards
  is the metadata before without the entries that are \<^const>\<open>swept\<close>; an id in some
  favourites map keeps its entry, and a read mark protects nothing. The read sets and the
  favourites maps are unchanged, and the number returned is the number of entries
  deleted. The keys of the metadata map are distinct, as the keys of a \<^verbatim>\<open>Map\<close> are.
\<close>

theorem clearOldMetadata_exact:
  assumes "distinct (Map_keys (articleMetadata st))"
  shows "let maxAge = (case maxAge_arg of None \<Rightarrow> 7 * 24 * 60 * 60 * 1000 | Some m \<Rightarrow> m);
             r = clearOldMetadata now maxAge_arg st
         in articleMetadata (snd r) = filter (\<lambda>p. \<not> swept now maxAge st p) (articleMetadata st)
          \<and> (\<forall>i. in_some_favorites (favoriteArticles st) i \<longrightarrow>
                 Map_get (articleMetadata (snd r)) i = Map_get (articleMetadata st) i)
          \<and> readArticles (snd r) = readArticles st
          \<and> favoriteArticles (snd r) = favoriteArticles st
          \<and> fst r = length (filter (swept now maxAge st) (articleMetadata st))
          \<and> fst r + length (articleMetadata (snd r)) = length (articleMetadata st)"
proof -
  define maxAge where "maxAge = (case maxAge_arg of None \<Rightarrow> 7 * 24 * 60 * 60 * 1000 | Some m \<Rightarrow> m)"
  define toDelete where
    "toDelete = keep_favorites (favoriteArticles st) (old_ids now maxAge (articleMetadata st))"
  have r: "clearOldMetadata now maxAge_arg st =
             (length toDelete, st\<lparr>articleMetadata := fold Map_delete toDelete (articleMetadata st)\<rparr>)"
    by (simp add: clearOldMetadata_def Let_def maxAge_def toDelete_def)
  have md: "fold Map_delete toDelete (articleMetadata st)
            = filter (\<lambda>p. \<not> swept now maxAge st p) (articleMetadata st)"
    unfolding fold_Map_delete toDelete_def
    by (rule filter_cong [OF refl]) (simp add: toDelete_mem [OF assms])
  have n: "length toDelete = length (filter (swept now maxAge st) (articleMetadata st))"
    unfolding toDelete_def by (rule toDelete_length [OF assms])
  have total: "length (filter (swept now maxAge st) (articleMetadata st))
               + length (filter (\<lambda>p. \<not> swept now maxAge st p) (articleMetadata st))
               = length (articleMetadata st)"
    by (rule sum_length_filter_compl)
  have kept: "\<forall>i. in_some_favorites (favoriteArticles st) i \<longrightarrow>
                 Map_get (filter (\<lambda>p. \<not> swept now maxAge st p) (articleMetadata st)) i
                   = Map_get (articleMetadata st) i"
    by (simp add: map_of_filter_all swept_def)
  show ?thesis
    unfolding Let_def maxAge_def [symmetric] r
    using md n total kept by simp
qed


theorem clearOldMetadata_exact_witness:
  "distinct (Map_keys (articleMetadata example_store))
   \<and> fst (clearOldMetadata 1000 (Some 500) example_store) = 1
   \<and> Map_keys (articleMetadata (snd (clearOldMetadata 1000 (Some 500) example_store))) = [''f'', ''n'']
   \<and> readArticles (snd (clearOldMetadata 1000 (Some 500) example_store)) = [(1, [''x''])]
   \<and> isRead 1 ''x'' example_store"
proof -
  have h: "distinct (Map_keys (articleMetadata example_store))"
    by (simp add: example_store_def)
  show ?thesis
    using h clearOldMetadata_exact [OF h, of "Some 500" 1000]
    by (simp add: Let_def example_store_def swept_def in_some_favorites_def
          example_metadata_def example_favorite_def isRead_def)
qed

section \<open>The cache: expiry and keys\<close>

lemma map_of_filter_distinct:
  "distinct (Map_keys m) \<Longrightarrow>
   map_of (filter P m) k =
     (case map_of m k of None \<Rightarrow> None | Some v \<Rightarrow> if P (k, v) then Some v else None)"
proof (induction m)
  case Nil
  then show ?case by simp
next
  case (Cons p m)
  obtain k' v' where p: "p = (k', v')" by (cases p)
  have absent: "k = k' \<Longrightarrow> map_of (filter P m) k = None"
    using Cons.prems p by (auto simp: map_of_eq_None_iff)
  show ?case
    using Cons p absent by (auto split: option.splits)
qed

lemma fold_delete_expired:
  "fold (\<lambda>(key, entry) m. if tm > expiresAt entry then Map_delete key m else m) xs m =
   fold Map_delete (Map_keys (filter (\<lambda>p. tm > expiresAt (snd p)) xs)) m"
  by (induction xs arbitrary: m) (auto simp: split_def)

lemma cache_clearExpired:
  assumes "distinct (Map_keys (cache c))"
  shows "cache (clearExpired tm c) = filter (\<lambda>p. \<not> tm > expiresAt (snd p)) (cache c)"
proof -
  have mem: "fst p \<in> set (Map_keys (filter (\<lambda>p. tm > expiresAt (snd p)) (cache c)))
             \<longleftrightarrow> tm > expiresAt (snd p)" if p: "p \<in> set (cache c)" for p
  proof
    assume "fst p \<in> set (Map_keys (filter (\<lambda>p. tm > expiresAt (snd p)) (cache c)))"
    then obtain q where q: "q \<in> set (cache c)" "tm > expiresAt (snd q)" "fst q = fst p"
      by auto
    then have "q = p"
      using assms p by (metis eq_key_imp_eq_value prod.collapse)
    with q show "tm > expiresAt (snd p)" by simp
  next
    assume "tm > expiresAt (snd p)"
    then show "fst p \<in> set (Map_keys (filter (\<lambda>p. tm > expiresAt (snd p)) (cache c)))"
      using p by force
  qed
  have "cache (clearExpired tm c) =
        filter (\<lambda>p. fst p \<notin> set (Map_keys (filter (\<lambda>p. tm > expiresAt (snd p)) (cache c))))
          (cache c)"
    by (simp add: clearExpired_def fold_delete_expired fold_Map_delete)
  also have "\<dots> = filter (\<lambda>p. \<not> tm > expiresAt (snd p)) (cache c)"
    by (rule filter_cong [OF refl]) (use mem in blast)
  finally show ?thesis .
qed

lemma Map_get_clearExpired:
  assumes "distinct (Map_keys (cache c))"
  shows "Map_get (cache (clearExpired tm c)) k =
           (case Map_get (cache c) k of
              None \<Rightarrow> None
            | Some e \<Rightarrow> if tm > expiresAt e then None else Some e)"
  using assms by (simp add: cache_clearExpired map_of_filter_distinct split: option.splits)

lemma distinct_clearExpired:
  "distinct (Map_keys (cache c)) \<Longrightarrow> distinct (Map_keys (cache (clearExpired tm c)))"
  by (simp add: cache_clearExpired distinct_map_filter)

lemma Map_get_after_get:
  "Map_get (cache (snd (cache_get k tm c))) key =
     (case Map_get (cache c) key of
        None \<Rightarrow> None
      | Some e \<Rightarrow> if k = key \<and> tm > expiresAt e then None else Some e)"
  by (auto simp: cache_get_def delete_conv' split: option.splits)

lemma distinct_after_get:
  "distinct (Map_keys (cache c)) \<Longrightarrow> distinct (Map_keys (cache (snd (cache_get k tm c))))"
  by (auto simp: cache_get_def distinct_delete split: option.splits)

lemma snd_cache_has: "snd (cache_has k tm c) = snd (cache_get k tm c)"
  by (simp add: cache_has_def split: prod.splits)

text \<open>
  What a history keeps true of the entry \<open>e\<close> stored under the key: the keys stay
  distinct, and the entry is still there, or it is gone and had expired before \<open>now\<close>.
\<close>

lemma apply_op_distinct:
  "distinct (Map_keys (cache c)) \<Longrightarrow> distinct (Map_keys (cache (apply_op op c)))"
  by (cases op)
     (simp_all add: cache_set_def distinct_update distinct_after_get snd_cache_has
        cache_delete_def distinct_delete cache_clear_def distinct_clearExpired)

lemma apply_op_keeps:
  assumes "admitted key now op" and "distinct (Map_keys (cache c))"
    and "Map_get (cache c) key = Some e \<or> (Map_get (cache c) key = None \<and> expiresAt e < now)"
  shows "Map_get (cache (apply_op op c)) key = Some e
          \<or> (Map_get (cache (apply_op op c)) key = None \<and> expiresAt e < now)"
proof (cases op)
  case (Op_set k v t tm)
  then show ?thesis
    using assms(1,3) by (simp add: cache_set_def update_conv')
next
  case (Op_get k tm)
  then show ?thesis
    using assms(1,3) by (auto simp: Map_get_after_get split: if_splits)
next
  case (Op_has k tm)
  then show ?thesis
    using assms(1,3) by (auto simp: snd_cache_has Map_get_after_get split: if_splits)
next
  case (Op_delete k)
  then show ?thesis
    using assms(1,3) by (simp add: cache_delete_def delete_conv')
next
  case Op_clear
  then show ?thesis using assms(1) by simp
next
  case (Op_clearExpired tm)
  have "Map_get (cache (clearExpired tm c)) key =
           (case Map_get (cache c) key of
              None \<Rightarrow> None
            | Some e \<Rightarrow> if tm > expiresAt e then None else Some e)"
    using assms(2) by (rule Map_get_clearExpired)
  then show ?thesis
    using Op_clearExpired assms(1,3) by (auto split: if_splits)
qed

lemma apply_op_entry:
  assumes "admitted key now op" and "distinct (Map_keys (cache c))"
    and "Map_get (cache c) key = Some e \<or> (Map_get (cache c) key = None \<and> expiresAt e < now)"
  shows "distinct (Map_keys (cache (apply_op op c)))
       \<and> (Map_get (cache (apply_op op c)) key = Some e
          \<or> (Map_get (cache (apply_op op c)) key = None \<and> expiresAt e < now))"
  using apply_op_distinct [OF assms(2)] apply_op_keeps [OF assms] by (rule conjI)

lemma fold_apply_op_entry:
  assumes "\<forall>op \<in> set ops. admitted key now op" and "distinct (Map_keys (cache c))"
    and "Map_get (cache c) key = Some e \<or> (Map_get (cache c) key = None \<and> expiresAt e < now)"
  shows "distinct (Map_keys (cache (fold apply_op ops c)))
       \<and> (Map_get (cache (fold apply_op ops c)) key = Some e
          \<or> (Map_get (cache (fold apply_op ops c)) key = None \<and> expiresAt e < now))"
  using assms
proof (induction ops arbitrary: c)
  case Nil
  then show ?case by simp
next
  case (Cons op ops)
  have first: "admitted key now op" and rest: "\<forall>op \<in> set ops. admitted key now op"
    using Cons.prems(1) by simp_all
  have step: "distinct (Map_keys (cache (apply_op op c)))
       \<and> (Map_get (cache (apply_op op c)) key = Some e
          \<or> (Map_get (cache (apply_op op c)) key = None \<and> expiresAt e < now))"
    using first Cons.prems(2) Cons.prems(3) by (rule apply_op_entry)
  show ?case
    unfolding fold_simps
    using rest conjunct1 [OF step] conjunct2 [OF step] by (rule Cons.IH)
qed

lemma distinct_cache_set:
  "distinct (Map_keys (cache c)) \<Longrightarrow> distinct (Map_keys (cache (cache_set key v ttl_arg tset c)))"
  by (simp add: cache_set_def distinct_update)

lemma Map_get_cache_set:
  "Map_get (cache (cache_set key v ttl_arg tset c)) key =
     Some \<lparr>entry_value = v,
           expiresAt = tset + (case ttl_arg of None \<Rightarrow> ttl c | Some t \<Rightarrow> t),
           entry_cachedAt = tset\<rparr>"
  by (simp add: cache_set_def update_conv')

text \<open>
  Claim C2, as stated: after \<^verbatim>\<open>set(k, v, ttl)\<close> at time \<open>tset\<close>, \<^verbatim>\<open>get(k)\<close> at time \<open>now\<close>
  returns \<open>v\<close> if and only if \<open>now < expiresAt\<close>. It fails at \<open>now = expiresAt\<close>: the
  entry set at time 0 with a ttl of 100 is still returned at time 100.
\<close>

theorem cache_get_boundary_counterexample:
  "fst (cache_get ''k'' 100 (cache_set ''k'' (1::nat) (Some 100) 0 new_CacheService)) = Some 1
   \<and> \<not> ((100::int) < 0 + 100)"
  by (simp add: cache_get_def cache_set_def new_CacheService_def)

text \<open>
  Claim C2, amended. For every key, value and ttl (given, or the default), after
  \<^verbatim>\<open>set(k, v, ttl)\<close> at time \<open>tset\<close>, so that \<open>expiresAt = tset + ttl\<close>, and any history
  with no \<^verbatim>\<open>set\<close>, \<^verbatim>\<open>delete\<close> or \<^verbatim>\<open>clear\<close> on \<open>k\<close> (operations on other keys, and
  \<^verbatim>\<open>get\<close> or \<^verbatim>\<open>has\<close> of \<open>k\<close> and expiry sweeps that happened no later than \<open>now\<close>),
  \<^verbatim>\<open>get(k)\<close> at time \<open>now\<close> returns \<open>v\<close> if and only if \<open>now \<le> expiresAt\<close> and leaves the
  cache as it is; it returns the miss (\<^verbatim>\<open>null\<close>) if and only if \<open>expiresAt < now\<close>, and
  then the cache afterwards has no entry of \<open>k\<close>. The keys of the cache are distinct, as
  the keys of a \<^verbatim>\<open>Map\<close> are.
\<close>

theorem cache_get_after_set:
  assumes history: "\<forall>op \<in> set ops. admitted key now op"
    and keys: "distinct (Map_keys (cache c))"
  shows "let expires = tset + (case ttl_arg of None \<Rightarrow> ttl c | Some t \<Rightarrow> t);
             c1 = fold apply_op ops (cache_set key v ttl_arg tset c);
             r = cache_get key now c1
         in (fst r = Some v \<longleftrightarrow> now \<le> expires)
          \<and> (fst r = None \<longleftrightarrow> expires < now)
          \<and> (now \<le> expires \<longrightarrow> snd r = c1)
          \<and> (expires < now \<longrightarrow> snd r = c1\<lparr>cache := Map_delete key (cache c1)\<rparr>
                                 \<and> Map_get (cache (snd r)) key = None)"
proof -
  define expires where "expires = tset + (case ttl_arg of None \<Rightarrow> ttl c | Some t \<Rightarrow> t)"
  define e where "e = \<lparr>entry_value = v, expiresAt = expires, entry_cachedAt = tset\<rparr>"
  define c0 where "c0 = cache_set key v ttl_arg tset c"
  define c1 where "c1 = fold apply_op ops c0"
  have e: "expiresAt e = expires" "entry_value e = v" by (simp_all add: e_def)
  have "Map_get (cache c0) key = Some e"
    unfolding c0_def e_def expires_def by (rule Map_get_cache_set)
  then have stored:
    "Map_get (cache c0) key = Some e \<or> (Map_get (cache c0) key = None \<and> expiresAt e < now)"
    by (rule disjI1)
  have keys0: "distinct (Map_keys (cache c0))"
    unfolding c0_def using keys by (rule distinct_cache_set)
  have inv:
    "Map_get (cache c1) key = Some e \<or> (Map_get (cache c1) key = None \<and> expiresAt e < now)"
    unfolding c1_def using fold_apply_op_entry [OF history keys0 stored] by (rule conjunct2)
  have absent: "Map_get (cache c1) key = None \<Longrightarrow> c1\<lparr>cache := Map_delete key (cache c1)\<rparr> = c1"
    by (simp add: map_of_eq_None_iff)
  have "(fst (cache_get key now c1) = Some v \<longleftrightarrow> now \<le> expires)
      \<and> (fst (cache_get key now c1) = None \<longleftrightarrow> expires < now)
      \<and> (now \<le> expires \<longrightarrow> snd (cache_get key now c1) = c1)
      \<and> (expires < now \<longrightarrow>
            snd (cache_get key now c1) = c1\<lparr>cache := Map_delete key (cache c1)\<rparr>
            \<and> Map_get (cache (snd (cache_get key now c1))) key = None)"
    using inv
  proof
    assume "Map_get (cache c1) key = Some e"
    then show ?thesis
      using e by (simp add: cache_get_def delete_conv')
  next
    assume gone: "Map_get (cache c1) key = None \<and> expiresAt e < now"
    then show ?thesis
      using e absent by (simp add: cache_get_def)
  qed
  then show ?thesis
    unfolding Let_def expires_def [symmetric] c0_def [symmetric] c1_def [symmetric] .
qed

theorem cache_get_after_set_witness:
  "fst (cache_get ''k'' 100
          (fold apply_op
             [Op_get ''k'' 50, Op_clearExpired 60, Op_has ''k'' 70, Op_set ''j'' 2 None 10,
              Op_delete ''j'']
             (cache_set ''k'' (1::nat) (Some 100) 0 new_CacheService))) = Some 1
   \<and> fst (cache_get ''k'' 101
          (fold apply_op
             [Op_get ''k'' 50, Op_clearExpired 60, Op_has ''k'' 70, Op_set ''j'' 2 None 10,
              Op_delete ''j'']
             (cache_set ''k'' (1::nat) (Some 100) 0 new_CacheService))) = None
   \<and> fst (cache_get ''k'' 200
          (fold apply_op [Op_get ''k'' 150, Op_clearExpired 160]
             (cache_set ''k'' (1::nat) (Some 100) 0 new_CacheService))) = None"
proof -
  have h1: "\<forall>op \<in> set [Op_get ''k'' 50, Op_clearExpired 60, Op_has ''k'' 70,
                         Op_set ''j'' (2::nat) None 10, Op_delete ''j'']. admitted ''k'' 100 op"
    by simp
  have h2: "\<forall>op \<in> set [Op_get ''k'' 50, Op_clearExpired 60, Op_has ''k'' 70,
                         Op_set ''j'' (2::nat) None 10, Op_delete ''j'']. admitted ''k'' 101 op"
    by simp
  have h3: "\<forall>op \<in> set [Op_get ''k'' 150, Op_clearExpired 160 :: nat cache_op].
              admitted ''k'' 200 op"
    by simp
  have d: "distinct (Map_keys (cache (new_CacheService :: nat CacheService)))"
    by (simp add: new_CacheService_def)
  show ?thesis
    using cache_get_after_set [OF h1 d, where tset = 0 and ttl_arg = "Some 100" and v = 1]
          cache_get_after_set [OF h2 d, where tset = 0 and ttl_arg = "Some 100" and v = 1]
          cache_get_after_set [OF h3 d, where tset = 0 and ttl_arg = "Some 100" and v = 1]
    by (simp add: Let_def)
qed

lemma sort_keys_eq:
  assumes "distinct (map fst p1)" "distinct (map fst p2)" "set p1 = set p2"
  shows "sort (map fst p1) = sort (map fst (p2 :: (string \<times> string) list))"
proof -
  have "set (map fst p1) = set (map fst p2)" using assms(3) by simp
  then show ?thesis
    using assms(1,2) by (intro sorted_distinct_set_unique) simp_all
qed

text \<open>
  Claim C7. For every prefix and every two parameter objects that hold the same
  name-value pairs (each name once, in whatever order the pairs were inserted),
  \<^verbatim>\<open>generateKey\<close> returns the same key: the names are sorted before they are joined.
\<close>

theorem generateKey_order_independent:
  assumes "distinct (map fst p1)" "distinct (map fst p2)" "set p1 = set p2"
  shows "generateKey key_prefix p1 = generateKey key_prefix p2"
proof -
  have "map_of p1 = map_of p2"
    using assms by (simp add: map_of_inject_set)
  then have "param_value p1 = param_value p2"
    by (simp add: param_value_def fun_eq_iff)
  then show ?thesis
    using sort_keys_eq [OF assms] by (simp add: generateKey_def)
qed

theorem generateKey_order_independent_witness:
  "generateKey ''search'' [(''query'', ''ai''), (''lang'', ''en'')] = ''search:lang:en|query:ai''
   \<and> generateKey ''search'' [(''lang'', ''en''), (''query'', ''ai'')] = ''search:lang:en|query:ai''"
proof -
  have d1: "distinct (map fst [(''query'', ''ai''), (''lang'', ''en'')])" by simp
  have d2: "distinct (map fst [(''lang'', ''en''), (''query'', ''ai'')])" by simp
  have s: "set [(''query'', ''ai''), (''lang'', ''en'')] = set [(''lang'', ''en''), (''query'', ''ai'')]"
    by auto
  have "generateKey ''search'' [(''lang'', ''en''), (''query'', ''ai'')] = ''search:lang:en|query:ai''"
    by code_simp
  then show ?thesis
    using generateKey_order_independent [OF d1 d2 s, of "''search''"] by simp
qed

section \<open>The article store\<close>

lemma base64_append:
  "length p mod 3 = 0 \<Longrightarrow> base64 (p @ s) = base64 p @ base64 s"
  by (induction p rule: base64.induct) (simp_all add: Let_def)

lemma length_base64:
  "length p mod 3 = 0 \<Longrightarrow> 3 * length (base64 p) = 4 * length p"
  by (induction p rule: base64.induct) (simp_all add: Let_def)

lemma generateArticleId_prefix:
  assumes "length p = 24"
  shows "generateArticleId (p @ s) = base64 p"
proof -
  have "length (base64 p) = 32"
    using assms length_base64 [of p] by simp
  then show ?thesis
    using assms base64_append [of p s] by (simp add: generateArticleId_def)
qed

text \<open>
  Claim C3. \<^verbatim>\<open>generateArticleId\<close> is a function of the URL alone, but it keeps only the
  first 32 characters of the base64 text, which encode the first 24 bytes of the URL:
  two different URLs that agree on their first 24 bytes get the same id.
\<close>

theorem generateArticleId_collision:
  "''https://example.com/news/politics'' \<noteq> ''https://example.com/news/sports''
   \<and> generateArticleId ''https://example.com/news/politics''
     = generateArticleId ''https://example.com/news/sports''"
proof -
  have p: "length ''https://example.com/news'' = 24" by simp
  have "generateArticleId (''https://example.com/news'' @ ''/politics'')
        = generateArticleId (''https://example.com/news'' @ ''/sports'')"
    by (simp only: generateArticleId_prefix [OF p])
  then show ?thesis by simp
qed

lemma Map_set_fresh: "Map_get m k = None \<Longrightarrow> Map_set k v m = m @ [(k, v)]"
  by (induction m) (auto split: if_splits)

text \<open>
  Claim C6. \<^verbatim>\<open>storeArticleMetadata\<close> returns the id computed from the article's url and
  touches neither the read sets nor the favourites. When no metadata exists for the id
  it appends the article's metadata under that id; when metadata exists the model is
  unchanged. So a second call, at any time and with any article of the same url, returns
  the same id and changes nothing.
\<close>

theorem storeArticleMetadata_first_write_wins:
  "let i = generateArticleId (url a);
       r = storeArticleMetadata now a st
   in fst r = i
    \<and> readArticles (snd r) = readArticles st
    \<and> favoriteArticles (snd r) = favoriteArticles st
    \<and> (Map_get (articleMetadata st) i = None \<longrightarrow>
         articleMetadata (snd r) = articleMetadata st @ [(i, metadata_of i now a)])
    \<and> (Map_get (articleMetadata st) i \<noteq> None \<longrightarrow> snd r = st)
    \<and> (\<forall>now' a'. url a' = url a \<longrightarrow> storeArticleMetadata now' a' (snd r) = (i, snd r))"
  by (auto simp: storeArticleMetadata_def Let_def metadata_of_def Map_set_fresh update_conv')

theorem storeArticleMetadata_first_write_wins_witness:
  "length (articleMetadata
            (snd (storeArticleMetadata 5 (example_article ''https://example.com/a'') new_Article))) = 1
   \<and> snd (storeArticleMetadata 9 ((example_article ''https://example.com/a'')\<lparr>title := ''other''\<rparr>)
            (snd (storeArticleMetadata 5 (example_article ''https://example.com/a'') new_Article)))
     = snd (storeArticleMetadata 5 (example_article ''https://example.com/a'') new_Article)"
proof -
  have u: "url ((example_article ''https://example.com/a'')\<lparr>title := ''other''\<rparr>)
           = url (example_article ''https://example.com/a'')"
    by simp
  have e: "Map_get (articleMetadata new_Article)
             (generateArticleId (url (example_article ''https://example.com/a''))) = None"
    by (simp add: new_Article_def)
  show ?thesis
    using u e
      storeArticleMetadata_first_write_wins
        [of "example_article ''https://example.com/a''" 5 new_Article]
    by (simp add: Let_def new_Article_def)
qed

lemma map_entry_id:
  "Map_get m k = Some v \<Longrightarrow> f v = v \<Longrightarrow> AList.map_entry k f m = m"
  by (induction m) (auto split: if_splits)

lemma Map_delete_absent: "Map_get m k = None \<Longrightarrow> Map_delete k m = m"
  by (simp add: map_of_eq_None_iff)

text \<open>
  Claim C9. For every user and article id, \<^verbatim>\<open>removeFavorite\<close> returns true if and only
  if the id was in that user's favourites map before the call; afterwards the id is not
  in it, every other favourite of every user is as before, and the read sets and the
  metadata are untouched. When it returns false the model is unchanged. The controller
  answers 404 exactly when the model returned false, and 200 otherwise.
\<close>

theorem removeFavorite_iff:
  "let r = removeFavorite u i st;
       c = removeFavorite_controller u i st
   in (fst r \<longleftrightarrow> isFavorite u i st)
    \<and> \<not> isFavorite u i (snd r)
    \<and> (\<forall>u' i'. (u', i') \<noteq> (u, i) \<longrightarrow> isFavorite u' i' (snd r) = isFavorite u' i' st)
    \<and> readArticles (snd r) = readArticles st
    \<and> articleMetadata (snd r) = articleMetadata st
    \<and> (\<not> fst r \<longrightarrow> snd r = st)
    \<and> snd c = snd r
    \<and> http_status (fst c) = (if fst r then 200 else 404)
    \<and> body_success (fst c) = fst r"
proof (cases "Map_get (favoriteArticles st) u")
  case None
  then show ?thesis
    by (simp add: removeFavorite_def removeFavorite_controller_def isFavorite_def Let_def)
next
  case (Some favs)
  have unchanged: "Map_get favs i = None \<Longrightarrow>
      st\<lparr>favoriteArticles := AList.map_entry u (Map_delete i) (favoriteArticles st)\<rparr> = st"
    using Some by (simp add: map_entry_id Map_delete_absent)
  show ?thesis
    using Some unchanged
    by (auto simp: removeFavorite_def removeFavorite_controller_def isFavorite_def Let_def
          map_of_map_entry delete_conv' split: option.splits)
qed

theorem removeFavorite_iff_witness:
  "fst (removeFavorite 2 ''f'' example_store)
   \<and> \<not> isFavorite 2 ''f'' (snd (removeFavorite 2 ''f'' example_store))
   \<and> \<not> fst (removeFavorite 2 ''x'' example_store)
   \<and> snd (removeFavorite 2 ''x'' example_store) = example_store
   \<and> http_status (fst (removeFavorite_controller 2 ''x'' example_store)) = 404
   \<and> http_status (fst (removeFavorite_controller 2 ''f'' example_store)) = 200"
proof -
  have a: "isFavorite 2 ''f'' example_store"
    by (simp add: isFavorite_def example_store_def)
  have b: "\<not> isFavorite 2 ''x'' example_store"
    by (simp add: isFavorite_def example_store_def)
  show ?thesis
    using a b removeFavorite_iff [of 2 "''f''" example_store]
      removeFavorite_iff [of 2 "''x''" example_store]
    by (simp add: Let_def)
qed

lemma read_set_after_mark:
  "Map_get (readArticles (snd (markAsReadById now u i st))) u =
     Some (Set_add i (case Map_get (readArticles st) u of None \<Rightarrow> [] | Some s \<Rightarrow> s))"
  by (simp add: markAsReadById_def init_user_def Let_def map_of_map_entry update_conv'
        split: option.splits)

lemma articleMetadata_after_mark:
  "articleMetadata (snd (markAsReadById now u i st)) = articleMetadata st"
  by (simp add: markAsReadById_def Let_def)

lemma joined_Set_add:
  "f i = None \<Longrightarrow>
   map the (filter (\<lambda>a. a \<noteq> None) (map f (Set_add i s))) = map the (filter (\<lambda>a. a \<noteq> None) (map f s))"
  by (simp add: Set_add_def)

lemma joined_shorter:
  assumes "i \<in> set s" "f i = None"
  shows "length (filter (\<lambda>a. a \<noteq> None) (map f s)) < length s"
proof -
  have "f i \<in> set (map f s)" using assms(1) by simp
  then have "length (filter (\<lambda>a. a \<noteq> None) (map f s)) < length (map f s)"
    by (rule length_filter_less) (simp add: assms(2))
  then show ?thesis by simp
qed

text \<open>
  Claim C10. For every user and every article id with no entry in the metadata map,
  after \<^verbatim>\<open>markAsReadById\<close> the id is read, \<^verbatim>\<open>getReadArticles\<close> is what it was before
  (each of its entries is the metadata of some other id), \<open>totalRead\<close> counts the id, and
  \<open>totalRead\<close> is strictly greater than the length of \<^verbatim>\<open>getReadArticles\<close>.
\<close>

theorem markAsReadById_without_metadata:
  assumes "Map_get (articleMetadata st) i = None"
  shows "let st' = snd (markAsReadById now u i st)
         in isRead u i st'
          \<and> getReadArticles u st' = getReadArticles u st
          \<and> (\<forall>a \<in> set (getReadArticles u st'). \<exists>k. k \<noteq> i \<and> Map_get (articleMetadata st') k = Some a)
          \<and> totalRead (getUserStats u st') =
              (if isRead u i st then totalRead (getUserStats u st)
               else totalRead (getUserStats u st) + 1)
          \<and> length (getReadArticles u st') < totalRead (getUserStats u st')"
proof -
  define s where "s = (case Map_get (readArticles st) u of None \<Rightarrow> [] | Some s \<Rightarrow> s)"
  define st' where "st' = snd (markAsReadById now u i st)"
  have ra: "Map_get (readArticles st') u = Some (Set_add i s)"
    unfolding st'_def s_def by (rule read_set_after_mark)
  have md: "articleMetadata st' = articleMetadata st"
    unfolding st'_def by (rule articleMetadata_after_mark)
  have mem: "i \<in> set (Set_add i s)" by (simp add: Set_add_def)
  have 1: "isRead u i st'" using ra mem by (simp add: isRead_def)
  have 2: "getReadArticles u st' = getReadArticles u st"
    using ra md assms joined_Set_add [of "Map_get (articleMetadata st)" i s]
    by (simp add: getReadArticles_def s_def split: option.splits)
  have 3: "\<forall>a \<in> set (getReadArticles u st'). \<exists>k. k \<noteq> i \<and> Map_get (articleMetadata st') k = Some a"
    using ra md assms by (auto simp: getReadArticles_def) (metis option.distinct(1))
  have 4: "totalRead (getUserStats u st') =
              (if isRead u i st then totalRead (getUserStats u st)
               else totalRead (getUserStats u st) + 1)"
    using ra by (auto simp: getUserStats_def isRead_def s_def Set_add_def split: option.splits)
  have 5: "length (getReadArticles u st') < totalRead (getUserStats u st')"
    using ra md assms joined_shorter [OF mem, of "Map_get (articleMetadata st)"]
    by (simp add: getReadArticles_def getUserStats_def)
  show ?thesis
    unfolding Let_def st'_def [symmetric] using 1 2 3 4 5 by simp
qed


theorem markAsReadById_without_metadata_witness:
  "isRead 1 ''abc'' (snd (markAsReadById 7 1 ''abc'' new_Article))
   \<and> getReadArticles 1 (snd (markAsReadById 7 1 ''abc'' new_Article)) = []
   \<and> totalRead (getUserStats 1 (snd (markAsReadById 7 1 ''abc'' new_Article))) = 1"
proof -
  have e: "Map_get (articleMetadata new_Article) ''abc'' = None"
    by (simp add: new_Article_def)
  have r: "\<not> isRead 1 ''abc'' new_Article"
    by (simp add: isRead_def new_Article_def)
  have g: "getReadArticles 1 new_Article = []"
    by (simp add: getReadArticles_def new_Article_def)
  have t: "totalRead (getUserStats 1 new_Article) = 0"
    by (simp add: getUserStats_def new_Article_def)
  show ?thesis
    using r g t markAsReadById_without_metadata [OF e, where u = 1 and now = 7]
    by (simp add: Let_def)
qed


section \<open>The background scheduler\<close>

lemma scheduler_inv_init: "scheduler_inv (new_BackgroundJobService, new_timers)"
  by (simp add: scheduler_inv_def new_BackgroundJobService_def new_timers_def installed_def)

lemma scheduler_inv_start: "scheduler_inv s \<Longrightarrow> scheduler_inv (start config s)"
  by (cases s)
     (auto simp: scheduler_inv_def start_def setInterval_def installed_def all_jobs_def Let_def)

lemma scheduler_inv_stop: "scheduler_inv s \<Longrightarrow> scheduler_inv (stop s)"
  by (cases s)
     (auto simp: scheduler_inv_def stop_def installed_def Let_def clear_slot_def clearInterval_def)

lemma reachable_inv: "reachable s \<Longrightarrow> scheduler_inv s"
  by (induction rule: reachable.induct)
     (simp_all add: scheduler_inv_init scheduler_inv_start scheduler_inv_stop)

lemma start_running: "isRunning (fst s) \<Longrightarrow> start config s = s"
  by (cases s) (simp add: start_def)

lemma stop_stopped: "\<not> isRunning (fst s) \<Longrightarrow> stop s = s"
  by (cases s) (simp add: stop_def)

lemma start_stopped:
  assumes "scheduler_inv s" "\<not> isRunning (fst s)"
  shows "isRunning (fst (start config s)) \<and> installed (fst (start config s)) = (True, True, True)
         \<and> map (\<lambda>t. fst (snd t)) (active (snd (start config s))) = all_jobs"
  using assms
  by (cases s)
     (auto simp: scheduler_inv_def start_def setInterval_def installed_def all_jobs_def Let_def)

lemma stop_running:
  assumes "scheduler_inv s" "isRunning (fst s)"
  shows "\<not> isRunning (fst (stop s)) \<and> installed (fst (stop s)) = (False, False, False)
         \<and> active (snd (stop s)) = []"
proof -
  obtain svc rt where s: "s = (svc, rt)" by (cases s)
  obtain t1 t2 t3 where a: "active rt = [t1, t2, t3]"
    using assms s by (auto simp: scheduler_inv_def all_jobs_def)
  show ?thesis
    using assms s a
    by (auto simp: scheduler_inv_def stop_def installed_def Let_def clear_slot_def clearInterval_def)
qed

text \<open>
  Claim C8. Every state the scheduler can reach is one of the two: running with all three
  timers installed, or stopped with none. \<^verbatim>\<open>start\<close> when running changes nothing;
  \<^verbatim>\<open>start\<close> when stopped installs the three timers (cache warm, cache sweep, metadata
  sweep) and the state is running; \<^verbatim>\<open>stop\<close> when stopped changes nothing; \<^verbatim>\<open>stop\<close> when
  running cancels the three timers and the state is stopped.
\<close>

theorem scheduler_two_states:
  assumes "reachable s"
  shows "scheduler_inv s
       \<and> (isRunning (fst s) \<longrightarrow> start config s = s)
       \<and> (\<not> isRunning (fst s) \<longrightarrow>
            isRunning (fst (start config s))
            \<and> installed (fst (start config s)) = (True, True, True)
            \<and> map (\<lambda>t. fst (snd t)) (active (snd (start config s))) = all_jobs)
       \<and> (\<not> isRunning (fst s) \<longrightarrow> stop s = s)
       \<and> (isRunning (fst s) \<longrightarrow>
            \<not> isRunning (fst (stop s))
            \<and> installed (fst (stop s)) = (False, False, False)
            \<and> active (snd (stop s)) = [])"
  using reachable_inv [OF assms] start_running stop_stopped start_stopped stop_running
  by blast

theorem scheduler_two_states_witness:
  "reachable (start example_config (new_BackgroundJobService, new_timers))
   \<and> isRunning (fst (start example_config (new_BackgroundJobService, new_timers)))
   \<and> installed (fst (start example_config (new_BackgroundJobService, new_timers))) = (True, True, True)
   \<and> active (snd (stop (start example_config (new_BackgroundJobService, new_timers)))) = []"
proof -
  have r0: "reachable (new_BackgroundJobService, new_timers)" by (rule reachable.init)
  have r1: "reachable (start example_config (new_BackgroundJobService, new_timers))"
    using r0 by (rule reachable.start)
  have n: "\<not> isRunning (fst (new_BackgroundJobService, new_timers))"
    by (simp add: new_BackgroundJobService_def)
  show ?thesis
    using r1 n scheduler_two_states [OF r0, of example_config]
          scheduler_two_states [OF r1, of example_config]
    by simp
qed

section \<open>The personalised feed\<close>

lemma cache_get_after_get:
  "fst (cache_get k now (snd (cache_get k' now c))) = fst (cache_get k now c)"
  by (auto simp: cache_get_def delete_conv' split: option.splits)

lemma lookup_after_lookup:
  "fst (searchNews_lookup now q (snd (searchNews_lookup now q' c))) = fst (searchNews_lookup now q c)"
proof -
  have a: "\<And>d. fst (searchNews_lookup now q d) =
             map_option (\<lambda>r. r\<lparr>fromCache := True\<rparr>) (fst (cache_get (search_key q) now d))"
    by (simp add: searchNews_lookup_def split: prod.splits option.splits)
  have b: "snd (searchNews_lookup now q' c) = snd (cache_get (search_key q') now c)"
    by (simp add: searchNews_lookup_def split: prod.splits option.splits)
  show ?thesis
    by (simp only: a b cache_get_after_get)
qed

text \<open>
  The contribution of a preference is what its own \<^verbatim>\<open>searchNews\<close> call settles to behind
  the \<^verbatim>\<open>.catch\<close> handler.
\<close>

lemma pref_result_searchNews:
  "catch_search (fst (searchNews prov svc now later p c)) = Inr (pref_result prov now c p)"
  by (cases "searchNews_lookup now p c"; cases "prov p")
     (auto simp: searchNews_def searchNews_fetch_def catch_search_def pref_result_def
        empty_result_def fetched_result_def Let_def split: option.splits)

lemma fst_start_searches_Cons:
  "fst (start_searches now (p # ps) c) =
     (p, fst (searchNews_lookup now p c)) # fst (start_searches now ps (snd (searchNews_lookup now p c)))"
  by (simp split: prod.splits)

lemma start_searches_lookups_gen:
  "(\<And>q. fst (searchNews_lookup now q c') = fst (searchNews_lookup now q c)) \<Longrightarrow>
   fst (start_searches now ps c') = map (\<lambda>p. (p, fst (searchNews_lookup now p c))) ps"
proof (induction ps arbitrary: c')
  case Nil
  then show ?case by simp
next
  case (Cons p ps)
  have "\<And>q. fst (searchNews_lookup now q (snd (searchNews_lookup now p c')))
             = fst (searchNews_lookup now q c)"
    by (simp add: lookup_after_lookup Cons.prems)
  from Cons.IH [OF this] show ?case
    by (simp only: fst_start_searches_Cons Cons.prems list.map)
qed

lemma start_searches_lookups:
  "fst (start_searches now ps c) = map (\<lambda>p. (p, fst (searchNews_lookup now p c))) ps"
  by (rule start_searches_lookups_gen) simp

lemma finish_searches_results:
  "fst (finish_searches prov svc later pending c) = map (\<lambda>pr. Inr (settle prov pr)) pending"
  by (induction prov svc later pending c rule: finish_searches.induct)
     (auto simp: settle_def catch_search_def searchNews_fetch_def empty_result_def
        fetched_result_def Let_def split: prod.splits sum.splits)

lemma promise_all_fulfilled: "promise_all (map (\<lambda>x. Inr (f x)) xs) = Inr (map f xs)"
  by (induction xs) simp_all

lemma personalized_results:
  "preferences \<noteq> [] \<Longrightarrow>
   fst (getPersonalizedNews prov svc now later preferences c) =
     Inr (combine_results (map (pref_result prov now c) preferences))"
proof -
  assume ne: "preferences \<noteq> []"
  obtain pending c1 where s: "start_searches now preferences c = (pending, c1)"
    by (cases "start_searches now preferences c")
  obtain ps c2 where f: "finish_searches prov svc later pending c1 = (ps, c2)"
    by (cases "finish_searches prov svc later pending c1")
  have pending: "pending = map (\<lambda>p. (p, fst (searchNews_lookup now p c))) preferences"
    using start_searches_lookups [of now preferences c] s by simp
  have ps: "ps = map (\<lambda>pr. Inr (settle prov pr)) pending"
    using finish_searches_results [of prov svc later pending c1] f by simp
  have "map (settle prov) pending = map (pref_result prov now c) preferences"
    by (auto simp: pending settle_def pref_result_def split: option.splits)
  then show ?thesis
    using ne by (simp add: getPersonalizedNews_def s f ps promise_all_fulfilled)
qed


lemma add_article_pair:
  "add_article a (acc, seen) =
     (if url a \<notin> set seen then (acc @ [a], Set_add (url a) seen) else (acc, seen))"
  by (simp add: add_article_def)

lemma fold_add_article:
  "fst (fold add_article as (acc, seen)) =
     acc @ first_by_url (filter (\<lambda>a. url a \<notin> set seen) as)"
proof (induction as arbitrary: acc seen)
  case Nil
  then show ?case by simp
next
  case (Cons a as)
  show ?case
  proof (cases "url a \<in> set seen")
    case True
    then show ?thesis by (simp add: add_article_pair Cons.IH)
  next
    case False
    have "filter (\<lambda>b. url b \<notin> set (Set_add (url a) seen)) as
          = filter (\<lambda>b. url b \<noteq> url a) (filter (\<lambda>b. url b \<notin> set seen) as)"
      using False by (auto simp: Set_add_def intro: filter_cong)
    then show ?thesis
      using False by (simp add: add_article_pair Cons.IH)
  qed
qed

lemma add_result_fold: "add_result r = fold add_article (result_articles r)"
  by (simp add: add_result_def result_articles_def fun_eq_iff split: option.splits)

lemma fold_add_result:
  "fold add_result rs acc = fold add_article (concat (map result_articles rs)) acc"
  by (induction rs arbitrary: acc) (simp_all add: add_result_fold)

lemma combine_results_eq:
  "combine_results rs =
     (let merged = take 10 (first_by_url (concat (map result_articles rs)))
      in \<lparr>success = True, totalArticles = Some (length merged), articles = Some merged,
          fromCache = False\<rparr>)"
  by (simp add: combine_results_def fold_add_result fold_add_article Let_def)

lemma first_by_url_subseq: "subseq (first_by_url xs) xs"
proof (induction xs rule: first_by_url.induct)
  case 1
  then show ?case by simp
next
  case (2 a as)
  have "subseq (filter (\<lambda>b. url b \<noteq> url a) as) as" by simp
  with 2 have "subseq (first_by_url (filter (\<lambda>b. url b \<noteq> url a) as)) as"
    by (rule subseq_order.trans)
  then show ?case by simp
qed

lemma first_by_url_set: "x \<in> set (first_by_url xs) \<Longrightarrow> x \<in> set xs"
  by (induction xs rule: first_by_url.induct) auto

lemma first_by_url_distinct: "distinct (map url (first_by_url xs))"
proof (induction xs rule: first_by_url.induct)
  case 1
  then show ?case by simp
next
  case (2 a as)
  have "url a \<notin> url ` set (first_by_url (filter (\<lambda>b. url b \<noteq> url a) as))"
  proof
    assume "url a \<in> url ` set (first_by_url (filter (\<lambda>b. url b \<noteq> url a) as))"
    then obtain x where x: "x \<in> set (first_by_url (filter (\<lambda>b. url b \<noteq> url a) as))"
      and u: "url a = url x"
      by (rule imageE)
    from x have "x \<in> set (filter (\<lambda>b. url b \<noteq> url a) as)"
      by (rule first_by_url_set)
    with u show False by simp
  qed
  with 2 show ?case by simp
qed

lemma find_filter_implied:
  "(\<And>b. P b \<Longrightarrow> Q b) \<Longrightarrow> find P (filter Q xs) = find P xs"
  by (induction xs) auto

lemma first_by_url_first:
  "x \<in> set (first_by_url xs) \<Longrightarrow> find (\<lambda>b. url b = url x) xs = Some x"
proof (induction xs rule: first_by_url.induct)
  case 1
  then show ?case by simp
next
  case (2 a as)
  show ?case
  proof (cases "x = a")
    case True
    then show ?thesis by simp
  next
    case False
    then have mem: "x \<in> set (first_by_url (filter (\<lambda>b. url b \<noteq> url a) as))"
      using "2.prems" by simp
    then have neq: "url x \<noteq> url a"
      using first_by_url_set [OF mem] by simp
    have "find (\<lambda>b. url b = url x) (filter (\<lambda>b. url b \<noteq> url a) as) = Some x"
      using mem by (rule "2.IH")
    moreover have "find (\<lambda>b. url b = url x) (filter (\<lambda>b. url b \<noteq> url a) as)
                   = find (\<lambda>b. url b = url x) as"
      using neq by (intro find_filter_implied) simp
    ultimately show ?thesis using neq by simp
  qed
qed

lemma first_by_url_covers: "url ` set (first_by_url xs) = url ` set xs"
proof (induction xs rule: first_by_url.induct)
  case 1
  then show ?case by simp
next
  case (2 a as)
  have "url ` set (a # as) = insert (url a) (url ` set (filter (\<lambda>b. url b \<noteq> url a) as))"
    by auto
  with 2 show ?case by simp
qed

lemma distinct_count_le_1:
  "distinct (map f xs) \<Longrightarrow> length (filter (\<lambda>a. f a = u) xs) \<le> 1"
  by (induction xs) (auto simp: filter_empty_conv image_iff)

text \<open>
  Claim C4. For every non-empty preference list, \<^verbatim>\<open>getPersonalizedNews\<close> succeeds with
  the concatenation of the per-preference article lists, in preference order and each
  list in its own order, deduplicated by URL with the first occurrence kept, and cut to
  the first 10: the result is a subsequence of the concatenation, no URL occurs in it
  more than once, each article in it is the first of the concatenation with its URL, and
  it has at most 10 articles. When at most 10 distinct URLs were found, every URL found
  occurs in the result, hence exactly once.
\<close>

theorem getPersonalizedNews_merge:
  assumes "preferences \<noteq> []"
  shows "let allArticles = concat (map (pref_articles prov now c) preferences);
             merged = take 10 (first_by_url allArticles)
         in fst (getPersonalizedNews prov svc now later preferences c) =
              Inr \<lparr>success = True, totalArticles = Some (length merged), articles = Some merged,
                   fromCache = False\<rparr>
          \<and> subseq merged allArticles
          \<and> distinct (map url merged)
          \<and> (\<forall>u. length (filter (\<lambda>a. url a = u) merged) \<le> 1)
          \<and> (\<forall>a \<in> set merged. find (\<lambda>b. url b = url a) allArticles = Some a)
          \<and> length merged \<le> 10
          \<and> (length (first_by_url allArticles) \<le> 10 \<longrightarrow> url ` set merged = url ` set allArticles)"
proof -
  define allArticles where "allArticles = concat (map (pref_articles prov now c) preferences)"
  define merged where "merged = take 10 (first_by_url allArticles)"
  have m: "map result_articles (map (pref_result prov now c) preferences)
           = map (pref_articles prov now c) preferences"
    by (simp add: pref_articles_def)
  have res: "fst (getPersonalizedNews prov svc now later preferences c) =
               Inr (combine_results (map (pref_result prov now c) preferences))"
    using assms by (rule personalized_results)
  have 1: "fst (getPersonalizedNews prov svc now later preferences c) =
              Inr \<lparr>success = True, totalArticles = Some (length merged), articles = Some merged,
                   fromCache = False\<rparr>"
    unfolding res combine_results_eq Let_def m merged_def allArticles_def by (rule refl)
  have "subseq merged (first_by_url allArticles)"
    unfolding merged_def using take_is_prefix by (rule prefix_imp_subseq)
  then have 2: "subseq merged allArticles"
    using first_by_url_subseq by (rule subseq_order.trans)
  have 3: "distinct (map url merged)"
    unfolding merged_def take_map [symmetric] by (rule distinct_take) (rule first_by_url_distinct)
  have 4: "\<forall>u. length (filter (\<lambda>a. url a = u) merged) \<le> 1"
  proof
    fix u
    show "length (filter (\<lambda>a. url a = u) merged) \<le> 1"
      using 3 by (rule distinct_count_le_1)
  qed
  have 5: "\<forall>a \<in> set merged. find (\<lambda>b. url b = url a) allArticles = Some a"
    unfolding merged_def by (auto dest: in_set_takeD intro: first_by_url_first)
  have 6: "length merged \<le> 10" by (simp add: merged_def)
  have 7: "length (first_by_url allArticles) \<le> 10 \<longrightarrow> url ` set merged = url ` set allArticles"
    by (simp add: merged_def first_by_url_covers)
  show ?thesis
    unfolding Let_def allArticles_def [symmetric] merged_def [symmetric]
    by (intro conjI; fact)
qed

theorem getPersonalizedNews_merge_witness:
  "fst (getPersonalizedNews example_provider new_NewsService 0 1 [''a'', ''a''] new_CacheService) =
     Inr \<lparr>success = True, totalArticles = Some 2,
          articles = Some [example_article ''https://example.com/1'',
                           example_article ''https://example.com/2''],
          fromCache = False\<rparr>"
proof -
  have ne: "[''a'', ''a''] \<noteq> []" by simp
  show ?thesis
    using getPersonalizedNews_merge
      [OF ne, of example_provider 0 new_CacheService new_NewsService 1]
    by (simp add: Let_def pref_articles_def pref_result_def searchNews_lookup_def cache_get_def
          new_CacheService_def example_provider_def fetched_result_def result_articles_def
          example_article_def)
qed

lemma concat_map_filter_nonempty:
  "(\<And>p. \<not> keep p \<Longrightarrow> f p = []) \<Longrightarrow> concat (map f (filter keep ps)) = concat (map f ps)"
  by (induction ps) auto

lemma fetch_fails_no_articles: "fetch_fails prov now c p \<Longrightarrow> pref_articles prov now c p = []"
  by (cases "prov p")
     (simp_all add: fetch_fails_def pref_articles_def pref_result_def result_articles_def
        empty_result_def)

text \<open>
  Claim C5. For every preference list, \<^verbatim>\<open>getPersonalizedNews\<close> returns a successful
  result, never an error: a preference whose fetch fails contributes no article, and the
  result is the merge of the articles of the preferences whose fetches did not fail.
\<close>

theorem getPersonalizedNews_isolates_failures:
  "let succeeded = filter (\<lambda>p. \<not> fetch_fails prov now c p) preferences;
       merged = take 10 (first_by_url (concat (map (pref_articles prov now c) succeeded)))
   in fst (getPersonalizedNews prov svc now later preferences c) =
        Inr \<lparr>success = True, totalArticles = Some (length merged), articles = Some merged,
             fromCache = False\<rparr>
    \<and> (\<forall>p. fetch_fails prov now c p \<longrightarrow> pref_articles prov now c p = [])"
proof -
  have none: "\<forall>p. fetch_fails prov now c p \<longrightarrow> pref_articles prov now c p = []"
    using fetch_fails_no_articles by blast
  have eq: "concat (map (pref_articles prov now c)
                     (filter (\<lambda>p. \<not> fetch_fails prov now c p) preferences))
            = concat (map (pref_articles prov now c) preferences)"
    by (rule concat_map_filter_nonempty) (simp add: fetch_fails_no_articles)
  have res: "fst (getPersonalizedNews prov svc now later preferences c) =
        Inr \<lparr>success = True,
             totalArticles = Some (length (take 10 (first_by_url
                 (concat (map (pref_articles prov now c) preferences))))),
             articles = Some (take 10 (first_by_url
                 (concat (map (pref_articles prov now c) preferences)))),
             fromCache = False\<rparr>"
  proof (cases "preferences = []")
    case True
    then show ?thesis by (simp add: getPersonalizedNews_def)
  next
    case False
    from getPersonalizedNews_merge [OF False, of prov now c svc later]
    show ?thesis unfolding Let_def by (rule conjunct1)
  qed
  show ?thesis
    unfolding Let_def eq using res none by (rule conjI)
qed

theorem getPersonalizedNews_isolates_failures_witness:
  "fetch_fails example_provider 0 new_CacheService ''b''
   \<and> fst (getPersonalizedNews example_provider new_NewsService 0 1 [''a'', ''b''] new_CacheService) =
       Inr \<lparr>success = True, totalArticles = Some 2,
            articles = Some [example_article ''https://example.com/1'',
                             example_article ''https://example.com/2''],
            fromCache = False\<rparr>"
proof -
  have f: "fetch_fails example_provider 0 new_CacheService ''b''"
    by (simp add: fetch_fails_def searchNews_lookup_def cache_get_def new_CacheService_def
          example_provider_def)
  have a: "\<not> fetch_fails example_provider 0 new_CacheService ''a''"
    by (simp add: fetch_fails_def example_provider_def)
  show ?thesis
    using f a getPersonalizedNews_isolates_failures
      [of example_provider 0 new_CacheService "[''a'', ''b'']" new_NewsService 1]
    by (simp add: Let_def pref_articles_def pref_result_def searchNews_lookup_def cache_get_def
          new_CacheService_def example_provider_def fetched_result_def result_articles_def
          example_article_def)
qed

end
